theory Spec2Isabelle
  imports Main "HOL-Library.AList"
begin

section \<open>JavaScript values\<close>

text \<open>
  The pipeline is the function \<open>processGeminiOutput\<close> of
  \<open>services/geminiService.ts\<close>. Its chunks, its supports and the value it parses are
  untyped in the source (\<open>any\<close>), so they are modelled by the values such data can take,
  with \<open>undefined\<close> for a missing property. A number stands for a JavaScript number
  whose value is an integer; fractions are outside the model. How \<open>String\<close> renders a
  number is left to the host: the rendering is the parameter \<open>numStr\<close> of every
  function that coerces, and nothing is assumed about it. A string is a list of code
  units below 256. An object is the list of its own properties, in property order.
\<close>

datatype jsval =
    Undefined
  | Null
  | Bool bool
  | Num int
  | Str string
  | Arr "jsval list"
  | Obj "(string \<times> jsval) list"

datatype error = TypeError | FailedToParse

text \<open>
  \<open>truthy\<close> is the conversion to a boolean that \<open>if\<close>, \<open>&&\<close> and \<open>||\<close> apply.
  \<open>get_prop v k\<close> is \<open>v.k\<close> for a value that is neither null nor undefined: none of the
  names that the pipeline reads (\<open>web\<close>, \<open>uri\<close>, \<open>title\<close>,
  \<open>groundingChunkIndices\<close>, \<open>nodes\<close>, \<open>edges\<close>, \<open>id\<close>, \<open>source\<close>,
  \<open>target\<close>) is a property of a string, an array, a number or a boolean, so only an
  object has an answer. \<open>member\<close> is the unguarded property access, which raises a
  TypeError on null and undefined.
\<close>

fun truthy :: "jsval \<Rightarrow> bool" where
  "truthy Undefined = False"
| "truthy Null = False"
| "truthy (Bool b) = b"
| "truthy (Num n) = (n \<noteq> 0)"
| "truthy (Str s) = (s \<noteq> [])"
| "truthy (Arr xs) = True"
| "truthy (Obj kvs) = True"

fun get_prop :: "jsval \<Rightarrow> string \<Rightarrow> jsval" where
  "get_prop (Obj kvs) k = (case map_of kvs k of Some v \<Rightarrow> v | None \<Rightarrow> Undefined)"
| "get_prop v k = Undefined"

fun member :: "jsval \<Rightarrow> string \<Rightarrow> error + jsval" where
  "member Undefined k = Inl TypeError"
| "member Null k = Inl TypeError"
| "member v k = Inr (get_prop v k)"

text \<open>
  \<open>to_String numStr\<close> is \<open>String(v)\<close>, with \<open>numStr\<close> for the digits of a
  number. An array is joined with commas, its null and undefined elements giving the
  empty string. An object gives \<open>[object Object]\<close>, unless it has an own property
  \<open>toString\<close>: in data that is never a function, and the conversion raises a
  TypeError. \<open>digits\<close> are the decimal digits of a natural number, as the index
  keys of an array have them, and \<open>show_int\<close> those of an integer.
\<close>

fun digits :: "nat \<Rightarrow> string" where
  "digits n = (if n < 10 then [''0123456789'' ! n]
               else digits (n div 10) @ [''0123456789'' ! (n mod 10)])"

declare digits.simps [simp del]

definition show_int :: "int \<Rightarrow> string" where
  "show_int i = (if i < 0 then CHR ''-'' # digits (nat (- i)) else digits (nat i))"

fun nullish :: "jsval \<Rightarrow> bool" where
  "nullish Undefined = True"
| "nullish Null = True"
| "nullish v = False"

fun to_String :: "(int \<Rightarrow> string) \<Rightarrow> jsval \<Rightarrow> error + string"
  and join :: "(int \<Rightarrow> string) \<Rightarrow> jsval list \<Rightarrow> error + string" where
  "to_String numStr Undefined = Inr ''undefined''"
| "to_String numStr Null = Inr ''null''"
| "to_String numStr (Bool b) = Inr (if b then ''true'' else ''false'')"
| "to_String numStr (Num n) = Inr (numStr n)"
| "to_String numStr (Str s) = Inr s"
| "to_String numStr (Arr xs) = join numStr xs"
| "to_String numStr (Obj kvs) =
     (if ''toString'' \<in> fst ` set kvs then Inl TypeError else Inr ''[object Object]'')"
| "join numStr [] = Inr []"
| "join numStr (x # xs) =
     (case (if nullish x then Inr [] else to_String numStr x) of
        Inl e \<Rightarrow> Inl e
      | Inr s \<Rightarrow>
          (if xs = [] then Inr s
           else (case join numStr xs of Inl e \<Rightarrow> Inl e | Inr r \<Rightarrow> Inr (s @ '','' @ r))))"


section \<open>Insertion-ordered maps\<close>

text \<open>
  A JavaScript \<open>Map\<close> iterates in insertion order, and \<open>set\<close> on a key that is
  already there replaces the value where it stands. An association list with distinct
  keys, written with \<open>AList.update\<close> and read with \<open>map_of\<close>, does the same.
\<close>

section \<open>Citation extraction\<close>

text \<open>
  Lines 60 to 90 of the source. \<open>addChunk\<close> is the body of the \<open>forEach\<close> over the
  chunks, on the pair of \<open>sourceMap\<close> and \<open>chunkIndexToUriMap\<close>, and
  \<open>extractSources\<close> is the loop. On a truthy uri that is not a string,
  \<open>uri.endsWith\<close> is not a function and the call raises a TypeError.
\<close>

record Source =
  title :: jsval
  uri :: string
  citationCount :: nat

type_synonym sourceMap = "(string \<times> Source) list"
type_synonym indexMap = "(nat \<times> string) list"

definition placeholder :: jsval where
  "placeholder = Str ''Unknown Source''"

definition normalizeUri :: "string \<Rightarrow> string" where
  "normalizeUri u = (if u \<noteq> [] \<and> last u = CHR ''/'' then butlast u else u)"

definition addChunk :: "sourceMap \<times> indexMap \<Rightarrow> nat \<Rightarrow> jsval \<Rightarrow> error + sourceMap \<times> indexMap" where
  "addChunk st index chunk =
     (let sm = fst st; im = snd st in
      if truthy chunk \<and> truthy (get_prop chunk ''web'') then
        (let u = get_prop (get_prop chunk ''web'') ''uri'';
             t = get_prop (get_prop chunk ''web'') ''title''
         in if truthy u then
              (case u of
                 Str s \<Rightarrow>
                   (let n = normalizeUri s; im' = AList.update index n im;
                        fresh = \<lparr>title = (if truthy t then t else placeholder),
                                 uri = s, citationCount = 0\<rparr>
                    in case map_of sm n of
                         None \<Rightarrow> Inr (AList.update n fresh sm, im')
                       | Some existing \<Rightarrow>
                           if title existing = placeholder \<and> truthy t
                           then Inr (AList.update n fresh sm, im')
                           else Inr (sm, im'))
               | _ \<Rightarrow> Inl TypeError)
            else Inr st)
      else Inr st)"

fun extractSources :: "sourceMap \<times> indexMap \<Rightarrow> nat \<Rightarrow> jsval list \<Rightarrow> error + sourceMap \<times> indexMap" where
  "extractSources st index [] = Inr st"
| "extractSources st index (chunk # chunks) =
     (case addChunk st index chunk of
        Inl e \<Rightarrow> Inl e
      | Inr st' \<Rightarrow> extractSources st' (Suc index) chunks)"

section \<open>Citation support linking\<close>

text \<open>
  Lines 94 to 111 of the source. \<open>linkSupport\<close> is the body of the \<open>forEach\<close> over
  the supports: it pushes the support, reads \<open>support.groundingChunkIndices\<close> with no
  guard on \<open>support\<close>, and calls \<open>forEach\<close> on a truthy value, which only an array
  has. \<open>countCitation\<close> is the body of the inner loop; the keys of the index map are
  numbers, so only a number finds an entry.
\<close>

fun lookupIndex :: "indexMap \<Rightarrow> jsval \<Rightarrow> string option" where
  "lookupIndex im (Num k) = (if 0 \<le> k then map_of im (nat k) else None)"
| "lookupIndex im v = None"

definition countCitation :: "indexMap \<Rightarrow> jsval \<Rightarrow> sourceMap \<Rightarrow> sourceMap" where
  "countCitation im chunkIndex sm =
     (case lookupIndex im chunkIndex of
        None \<Rightarrow> sm
      | Some u \<Rightarrow>
          if u \<noteq> [] then
            (case map_of sm u of
               None \<Rightarrow> sm
             | Some source \<Rightarrow>
                 AList.update u (source\<lparr>citationCount := Suc (citationCount source)\<rparr>) sm)
          else sm)"

definition linkSupport :: "indexMap \<Rightarrow> sourceMap \<times> jsval list \<Rightarrow> jsval \<Rightarrow> error + sourceMap \<times> jsval list" where
  "linkSupport im st support =
     (let sm = fst st; cleanSupports = snd st @ [support] in
      case member support ''groundingChunkIndices'' of
        Inl e \<Rightarrow> Inl e
      | Inr g \<Rightarrow>
          if truthy g then
            (case g of
               Arr indices \<Rightarrow> Inr (fold (countCitation im) indices sm, cleanSupports)
             | _ \<Rightarrow> Inl TypeError)
          else Inr (sm, cleanSupports))"

fun linkSupports :: "indexMap \<Rightarrow> sourceMap \<times> jsval list \<Rightarrow> jsval list \<Rightarrow> error + sourceMap \<times> jsval list" where
  "linkSupports im st [] = Inr st"
| "linkSupports im st (support # supports) =
     (case linkSupport im st support of
        Inl e \<Rightarrow> Inl e
      | Inr st' \<Rightarrow> linkSupports im st' supports)"

section \<open>Payload isolation\<close>

text \<open>
  Lines 117 to 135 of the source. White space is what \<open>\s\<close> and \<open>trim\<close> accept
  among the code units below 256. The two regular expressions are an opening fence,
  greedy white space, a lazy group, greedy white space and a closing fence. A backtick is
  no white space, so the first white space is taken whole, and the group is the shortest
  text after which white space and a closing fence follow: \<open>lazyGroup\<close>.
  \<open>fenceMatch\<close> tries the start positions from the left, as \<open>match\<close> does, and
  gives the index of the match and the group. \<open>indexOf\<close> and \<open>lastIndexOf\<close> give
  \<open>None\<close> where the source gets \<open>-1\<close>.
\<close>

definition is_space :: "char \<Rightarrow> bool" where
  "is_space c = (of_char c \<in> {9, 10, 11, 12, 13, 32, 160 :: nat})"

definition trim :: "string \<Rightarrow> string" where
  "trim s = rev (dropWhile is_space (rev (dropWhile is_space s)))"

fun indexOf :: "string \<Rightarrow> char \<Rightarrow> nat option" where
  "indexOf [] c = None"
| "indexOf (x # xs) c = (if x = c then Some 0 else map_option Suc (indexOf xs c))"

definition lastIndexOf :: "string \<Rightarrow> char \<Rightarrow> nat option" where
  "lastIndexOf s c = map_option (\<lambda>i. length s - 1 - i) (indexOf (rev s) c)"

definition startsWith :: "string \<Rightarrow> string \<Rightarrow> bool" where
  "startsWith s p = (take (length p) s = p)"

definition fence :: string where
  "fence = [CHR 0x60, CHR 0x60, CHR 0x60]"

definition closes :: "string \<Rightarrow> bool" where
  "closes s = startsWith (dropWhile is_space s) fence"

fun lazyGroup :: "string \<Rightarrow> string option" where
  "lazyGroup [] = (if closes [] then Some [] else None)"
| "lazyGroup (c # cs) =
     (if closes (c # cs) then Some [] else map_option ((#) c) (lazyGroup cs))"

fun fenceMatch :: "string \<Rightarrow> nat \<Rightarrow> string \<Rightarrow> (nat \<times> string) option" where
  "fenceMatch opener i [] = None"
| "fenceMatch opener i (c # cs) =
     (case (if startsWith (c # cs) opener
            then lazyGroup (dropWhile is_space (drop (length opener) (c # cs)))
            else None) of
        Some g \<Rightarrow> Some (i, g)
      | None \<Rightarrow> fenceMatch opener (Suc i) cs)"

definition jsonBlockMatch :: "string \<Rightarrow> (nat \<times> string) option" where
  "jsonBlockMatch text =
     (case fenceMatch (fence @ ''json'') 0 text of
        Some m \<Rightarrow> Some m
      | None \<Rightarrow> fenceMatch fence 0 text)"

definition isolate :: "string \<Rightarrow> string \<times> string" where
  "isolate text =
     (case jsonBlockMatch text of
        Some (i, g) \<Rightarrow> (trim (take i text), g)
      | None \<Rightarrow>
          (case indexOf text CHR ''{'' of
             Some firstBrace \<Rightarrow>
               if firstBrace > 0 then (trim (take firstBrace text), drop firstBrace text)
               else ([], trim text)
           | None \<Rightarrow> ([], trim text)))"

definition narrow :: "string \<Rightarrow> string" where
  "narrow cleanText =
     (case (indexOf cleanText CHR ''{'', lastIndexOf cleanText CHR ''}'') of
        (Some firstBrace, Some lastBrace) \<Rightarrow>
          if lastBrace > firstBrace
          then take (lastBrace + 1 - firstBrace) (drop firstBrace cleanText)
          else cleanText
      | _ \<Rightarrow> cleanText)"

section \<open>Graph sanitizing\<close>

text \<open>
  Lines 164 to 192 of the source. \<open>addNode\<close> is the body of the \<open>forEach\<close> over the
  nodes and \<open>filterEdge\<close> the body of the loop over the edges; \<open>spread\<close> gives the
  own properties that \<open>{...edge}\<close> copies, and \<open>withEndpoints\<close> is the object literal
  that sets \<open>source\<close> and \<open>target\<close> after them. \<open>nodeIds.has\<close> compares a string
  with the raw ids, so it holds of a node id only if that id is the same string.
\<close>

record GraphData =
  nodes :: "jsval list"
  edges :: "jsval list"

record GeminiResponse =
  graphData :: GraphData
  sources :: "Source list"
  searchQueries :: "string list"
  summary :: string
  groundingSupports :: "jsval list"

fun isArray :: "jsval \<Rightarrow> bool" where
  "isArray (Arr xs) = True"
| "isArray v = False"

fun elements :: "jsval \<Rightarrow> jsval list" where
  "elements (Arr xs) = xs"
| "elements v = []"

definition addNode :: "(int \<Rightarrow> string) \<Rightarrow> (string \<times> jsval) list \<Rightarrow> jsval \<Rightarrow> error + (string \<times> jsval) list" where
  "addNode numStr uniqueNodes node =
     (if truthy node \<and> truthy (get_prop node ''id'') then
        (case to_String numStr (get_prop node ''id'') of
           Inl e \<Rightarrow> Inl e
         | Inr k \<Rightarrow> Inr (AList.update k node uniqueNodes))
      else Inr uniqueNodes)"

fun addNodes :: "(int \<Rightarrow> string) \<Rightarrow> (string \<times> jsval) list \<Rightarrow> jsval list \<Rightarrow> error + (string \<times> jsval) list" where
  "addNodes numStr uniqueNodes [] = Inr uniqueNodes"
| "addNodes numStr uniqueNodes (node # ns) =
     (case addNode numStr uniqueNodes node of
        Inl e \<Rightarrow> Inl e
      | Inr uniqueNodes' \<Rightarrow> addNodes numStr uniqueNodes' ns)"

fun spread :: "jsval \<Rightarrow> (string \<times> jsval) list" where
  "spread (Obj kvs) = kvs"
| "spread (Arr xs) = zip (map digits [0..<length xs]) xs"
| "spread (Str s) = zip (map digits [0..<length s]) (map (\<lambda>c. Str [c]) s)"
| "spread v = []"

definition coerce :: "(int \<Rightarrow> string) \<Rightarrow> jsval \<Rightarrow> string \<Rightarrow> error + string" where
  "coerce numStr edge k = (case member edge k of Inl e \<Rightarrow> Inl e | Inr v \<Rightarrow> to_String numStr v)"

definition withEndpoints :: "jsval \<Rightarrow> string \<Rightarrow> string \<Rightarrow> jsval" where
  "withEndpoints edge sourceId targetId =
     Obj (AList.update ''target'' (Str targetId)
           (AList.update ''source'' (Str sourceId) (spread edge)))"

definition filterEdge :: "(int \<Rightarrow> string) \<Rightarrow> jsval list \<Rightarrow> jsval \<Rightarrow> error + jsval option" where
  "filterEdge numStr nodeIds edge =
     (case coerce numStr edge ''source'' of
        Inl e \<Rightarrow> Inl e
      | Inr sourceId \<Rightarrow>
          (case coerce numStr edge ''target'' of
             Inl e \<Rightarrow> Inl e
           | Inr targetId \<Rightarrow>
               if Str sourceId \<in> set nodeIds \<and> Str targetId \<in> set nodeIds
               then Inr (Some (withEndpoints edge sourceId targetId))
               else Inr None))"

fun filterEdges :: "(int \<Rightarrow> string) \<Rightarrow> jsval list \<Rightarrow> jsval list \<Rightarrow> jsval list \<Rightarrow> error + jsval list" where
  "filterEdges numStr nodeIds cleanedEdges [] = Inr cleanedEdges"
| "filterEdges numStr nodeIds cleanedEdges (edge # es) =
     (case filterEdge numStr nodeIds edge of
        Inl e \<Rightarrow> Inl e
      | Inr None \<Rightarrow> filterEdges numStr nodeIds cleanedEdges es
      | Inr (Some kept) \<Rightarrow> filterEdges numStr nodeIds (cleanedEdges @ [kept]) es)"

definition sanitize :: "(int \<Rightarrow> string) \<Rightarrow> jsval list \<Rightarrow> jsval list \<Rightarrow> error + GraphData" where
  "sanitize numStr ns es =
     (case addNodes numStr [] ns of
        Inl e \<Rightarrow> Inl e
      | Inr uniqueNodes \<Rightarrow>
          (let cleanedNodes = map snd uniqueNodes;
               nodeIds = map (\<lambda>n. get_prop n ''id'') cleanedNodes
           in case filterEdges numStr nodeIds [] es of
                Inl e \<Rightarrow> Inl e
              | Inr cleanedEdges \<Rightarrow> Inr \<lparr>nodes = cleanedNodes, edges = cleanedEdges\<rparr>))"

section \<open>The pipeline\<close>

text \<open>
  \<open>JSON.parse\<close> belongs to the host, not to the repository, and is a parameter of the
  pipeline, as the rendering of numbers is: it gives \<open>None\<close> where \<open>JSON.parse\<close>
  throws. The exceptions that leave
  \<open>processGeminiOutput\<close> are the results \<open>Inl\<close>: a TypeError of the language, or the
  error that line 161 throws when the payload does not parse and there is no source.
\<close>

definition validShape :: "jsval \<Rightarrow> bool" where
  "validShape g = (truthy g \<and> isArray (get_prop g ''nodes'') \<and> isArray (get_prop g ''edges''))"

definition citations :: "jsval list \<Rightarrow> jsval list \<Rightarrow> error + sourceMap \<times> jsval list" where
  "citations chunks supports =
     (case extractSources ([], []) 0 chunks of
        Inl e \<Rightarrow> Inl e
      | Inr (sourceMap, chunkIndexToUriMap) \<Rightarrow>
          linkSupports chunkIndexToUriMap (sourceMap, []) supports)"

definition processGeminiOutput ::
  "(int \<Rightarrow> string) \<Rightarrow> (string \<Rightarrow> jsval option) \<Rightarrow> string \<Rightarrow> jsval list \<Rightarrow> jsval list \<Rightarrow> string list
     \<Rightarrow> error + GeminiResponse" where
  "processGeminiOutput numStr JSON_parse text chunks supports queries =
     (case citations chunks supports of
        Inl e \<Rightarrow> Inl e
      | Inr (sourceMap, cleanSupports) \<Rightarrow>
          (let srcs = map snd sourceMap;
               response = (\<lambda>g. \<lparr>graphData = g, sources = srcs, searchQueries = queries,
                                 summary = fst (isolate text),
                                 groundingSupports = cleanSupports\<rparr>)
           in case JSON_parse (narrow (snd (isolate text))) of
                None \<Rightarrow>
                  if srcs \<noteq> [] then Inr (response \<lparr>nodes = [], edges = []\<rparr>)
                  else Inl FailedToParse
              | Some parsed \<Rightarrow>
                  if \<not> validShape parsed then Inr (response \<lparr>nodes = [], edges = []\<rparr>)
                  else
                    (case sanitize numStr (elements (get_prop parsed ''nodes''))
                                   (elements (get_prop parsed ''edges'')) of
                       Inl e \<Rightarrow> Inl e
                     | Inr g \<Rightarrow> Inr (response g))))"

section \<open>Example data\<close>

text \<open>
  Nodes, edges, graphs and chunks as the tests of the repository build them. For
  evaluation at concrete inputs, \<open>sampleParse\<close> is the table of \<open>JSON.parse\<close> on
  the four JSON texts that the examples parse, with white space around them as JSON
  allows it; it is applied to these and to texts that are no JSON. \<open>sampleNumStr\<close>
  is \<open>String\<close> on the numbers of the examples: the exact decimal digits on the small
  integers, and at \<open>2^60\<close> the shortest digits that read back as the same number.
\<close>

definition mkNode :: "string \<Rightarrow> string \<Rightarrow> jsval" where
  "mkNode i l = Obj [(''id'', Str i), (''label'', Str l)]"

definition mkEdge :: "string \<Rightarrow> string \<Rightarrow> string \<Rightarrow> jsval" where
  "mkEdge s t r = Obj [(''source'', Str s), (''target'', Str t), (''relation'', Str r)]"

definition mkGraph :: "jsval list \<Rightarrow> jsval list \<Rightarrow> jsval" where
  "mkGraph ns es = Obj [(''nodes'', Arr ns), (''edges'', Arr es)]"

definition webChunk :: "string \<Rightarrow> jsval \<Rightarrow> jsval" where
  "webChunk u t = Obj [(''web'', Obj [(''uri'', Str u), (''title'', t)])]"

definition jsonSpace :: "char \<Rightarrow> bool" where
  "jsonSpace c = (of_char c \<in> {9, 10, 13, 32 :: nat})"

definition sampleParse :: "string \<Rightarrow> jsval option" where
  \<open>sampleParse s =
     (let t = rev (dropWhile jsonSpace (rev (dropWhile jsonSpace s))) in
      if t = ''{}'' then Some (Obj [])
      else if t = ''{"nodes":[],"edges":[]}'' then Some (mkGraph [] [])
      else if t = ''{"nodes":[{"id":"1","label":"A"}],"edges":[{"source":"1","target":"1","relation":"self"}]}''
        then Some (mkGraph [mkNode ''1'' ''A''] [mkEdge ''1'' ''1'' ''self''])
      else if t = ''{"nodes":[{"id":"a```b","label":"A"}],"edges":[]}''
        then Some (mkGraph [mkNode ''a```b'' ''A''] [])
      else None)\<close>

definition sampleNumStr :: "int \<Rightarrow> string" where
  "sampleNumStr i =
     (if i = 1152921504606846976 then ''1152921504606847000'' else show_int i)"

section \<open>Notions used to state the properties\<close>

text \<open>The elements of a list in the order of their first occurrence.\<close>

fun firstOccurrences :: "'a list \<Rightarrow> 'a list" where
  "firstOccurrences [] = []"
| "firstOccurrences (x # xs) = x # filter (\<lambda>y. y \<noteq> x) (firstOccurrences xs)"

definition hasId :: "jsval \<Rightarrow> bool" where
  "hasId n = (truthy n \<and> truthy (get_prop n ''id''))"

definition coercedId :: "(int \<Rightarrow> string) \<Rightarrow> jsval \<Rightarrow> error + string" where
  "coercedId numStr n = to_String numStr (get_prop n ''id'')"

text \<open>
  An edge is kept over a node list when the coerced source and the coerced target are
  each the raw id of one of the nodes.
\<close>

definition keepsEdge :: "(int \<Rightarrow> string) \<Rightarrow> jsval list \<Rightarrow> jsval \<Rightarrow> bool" where
  "keepsEdge numStr ns e =
     (case (coerce numStr e ''source'', coerce numStr e ''target'') of
        (Inr s, Inr t) \<Rightarrow>
          (\<exists>n \<in> set ns. get_prop n ''id'' = Str s) \<and> (\<exists>m \<in> set ns. get_prop m ''id'' = Str t)
      | _ \<Rightarrow> False)"

definition normalizedEdge :: "(int \<Rightarrow> string) \<Rightarrow> jsval \<Rightarrow> jsval" where
  "normalizedEdge numStr e =
     (case (coerce numStr e ''source'', coerce numStr e ''target'') of
        (Inr s, Inr t) \<Rightarrow> withEndpoints e s t
      | _ \<Rightarrow> e)"

text \<open>
  The non-empty web uri that a chunk carries, if it carries one, its web title, and the
  source that the extractor stores for it.
\<close>

definition webUri :: "jsval \<Rightarrow> string option" where
  "webUri chunk =
     (case get_prop (get_prop chunk ''web'') ''uri'' of
        Str s \<Rightarrow> if s = [] then None else Some s
      | _ \<Rightarrow> None)"

definition webTitle :: "jsval \<Rightarrow> jsval" where
  "webTitle chunk = get_prop (get_prop chunk ''web'') ''title''"

definition storedSource :: "jsval \<Rightarrow> string \<Rightarrow> Source" where
  "storedSource chunk u =
     \<lparr>title = (if truthy (webTitle chunk) then webTitle chunk else placeholder),
      uri = u, citationCount = 0\<rparr>"

definition untitledChunk :: "string \<Rightarrow> jsval" where
  "untitledChunk u = Obj [(''web'', Obj [(''uri'', Str u)])]"

text \<open>
  Occurrence of a pattern in a text, and the text that wraps a JSON text in a fenced
  block between a preamble and a postamble, each on lines of their own.
\<close>

fun occurs :: "string \<Rightarrow> string \<Rightarrow> bool" where
  "occurs p [] = (p = [])"
| "occurs p (c # cs) = (startsWith (c # cs) p \<or> occurs p cs)"

definition fencedText :: "string \<Rightarrow> string \<Rightarrow> string \<Rightarrow> string" where
  "fencedText pre j post =
     pre @ CHR 0x0A # fence @ ''json'' @ CHR 0x0A # j @ CHR 0x0A # fence @ CHR 0x0A # post"

section \<open>Support pass-through\<close>

lemma linkSupports_cleanSupports:
  "linkSupports im (sm, cs) supports = Inr (sm', cs') \<Longrightarrow> cs' = cs @ supports"
proof (induction supports arbitrary: sm cs)
  case Nil
  then show ?case by simp
next
  case (Cons s supports)
  from Cons.prems obtain sm1 cs1 where
      step: "linkSupport im (sm, cs) s = Inr (sm1, cs1)"
      and rest: "linkSupports im (sm1, cs1) supports = Inr (sm', cs')"
    by (auto split: sum.splits)
  from step have "cs1 = cs @ [s]"
    by (auto simp: linkSupport_def Let_def split: sum.splits if_splits jsval.splits)
  with Cons.IH [OF rest] show ?case by simp
qed

lemma citations_cleanSupports:
  "citations chunks supports = Inr (sm, cs) \<Longrightarrow> cs = supports"
  by (auto simp: citations_def split: sum.splits dest: linkSupports_cleanSupports)

section \<open>Failure handling\<close>

text \<open>
  C4. The claim: for every sequence of raw support objects, also one with null or
  malformed entries, the support linker completes without error. The code reads
  \<open>support.groundingChunkIndices\<close> with no guard on \<open>support\<close> itself, so a null
  entry raises a TypeError that nothing catches, whatever the text and the chunks are.
\<close>

theorem null_support_raises:
  "processGeminiOutput numStr JSON_parse text [] [Null] queries = Inl TypeError \<and>
   processGeminiOutput numStr JSON_parse text []
     [Obj [(''groundingChunkIndices'', Num 5)]] queries = Inl TypeError"
  by (simp add: processGeminiOutput_def citations_def linkSupport_def)

text \<open>
  C3. When parsing the narrowed payload candidate fails, the pipeline returns the empty
  graph with the extracted sources, summary, queries and supports if there is at least one
  source, and raises the explicit parse error if there is none.
\<close>

theorem parse_failure_handling:
  assumes "citations chunks supports = Inr (sm, cleanSupports)"
    and "JSON_parse (narrow (snd (isolate text))) = None"
  shows "processGeminiOutput numStr JSON_parse text chunks supports queries =
           (if map snd sm \<noteq> []
            then Inr \<lparr>graphData = \<lparr>nodes = [], edges = []\<rparr>, sources = map snd sm,
                      searchQueries = queries, summary = fst (isolate text),
                      groundingSupports = supports\<rparr>
            else Inl FailedToParse)"
  using assms citations_cleanSupports [OF assms(1)]
  by (simp add: processGeminiOutput_def)

theorem parse_failure_handling_witness:
  "processGeminiOutput sampleNumStr sampleParse ''{ nodes: [ ... incomplete ''
       [webChunk ''http://example.com'' (Str ''Test Source'')] [] [''q''] =
     Inr \<lparr>graphData = \<lparr>nodes = [], edges = []\<rparr>,
          sources = [\<lparr>title = Str ''Test Source'', uri = ''http://example.com'',
                      citationCount = 0\<rparr>],
          searchQueries = [''q''], summary = [], groundingSupports = []\<rparr>
   \<and> processGeminiOutput sampleNumStr sampleParse ''{ nodes: [ ... incomplete '' [] [] [''q''] =
     Inl FailedToParse"
proof -
  let ?t = "''{ nodes: [ ... incomplete ''"
  have p: "sampleParse (narrow (snd (isolate ?t))) = None"
    by code_simp
  have i: "fst (isolate ?t) = []"
    by code_simp
  have c1: "citations [webChunk ''http://example.com'' (Str ''Test Source'')] [] =
              Inr ([(''http://example.com'',
                     \<lparr>title = Str ''Test Source'', uri = ''http://example.com'',
                      citationCount = 0\<rparr>)], [])"
    by code_simp
  have c2: "citations [] [] = Inr ([], [])"
    by code_simp
  show ?thesis
    using parse_failure_handling [of _ _ _ _ sampleParse ?t sampleNumStr "[''q'']", OF c1 p]
          parse_failure_handling [of _ _ _ _ sampleParse ?t sampleNumStr "[''q'']", OF c2 p] i
    by simp
qed

text \<open>
  C5. When the payload parses but the parsed value has no \<open>nodes\<close> array or no
  \<open>edges\<close> array, the pipeline raises nothing, however many sources there are: it
  returns the empty graph with the extracted sources, summary, queries and supports.
\<close>

theorem invalid_shape_never_fatal:
  assumes "citations chunks supports = Inr (sm, cleanSupports)"
    and "JSON_parse (narrow (snd (isolate text))) = Some parsed"
    and "\<not> isArray (get_prop parsed ''nodes'') \<or> \<not> isArray (get_prop parsed ''edges'')"
  shows "processGeminiOutput numStr JSON_parse text chunks supports queries =
           Inr \<lparr>graphData = \<lparr>nodes = [], edges = []\<rparr>, sources = map snd sm,
                searchQueries = queries, summary = fst (isolate text),
                groundingSupports = supports\<rparr>"
  using assms citations_cleanSupports [OF assms(1)]
  by (auto simp: processGeminiOutput_def validShape_def)

theorem invalid_shape_never_fatal_witness:
  "processGeminiOutput sampleNumStr sampleParse ''{}'' [] [] [] =
     Inr \<lparr>graphData = \<lparr>nodes = [], edges = []\<rparr>, sources = [],
          searchQueries = [], summary = [], groundingSupports = []\<rparr>"
proof -
  have c: "citations [] [] = Inr ([], [])"
    by code_simp
  have p: "sampleParse (narrow (snd (isolate ''{}''))) = Some (Obj [])"
    by code_simp
  have s: "\<not> isArray (get_prop (Obj []) ''nodes'') \<or> \<not> isArray (get_prop (Obj []) ''edges'')"
    by simp
  have i: "fst (isolate ''{}'') = []"
    by code_simp
  show ?thesis
    using invalid_shape_never_fatal [of _ _ _ _ sampleParse "''{}''" _ sampleNumStr "[]", OF c p s] i
    by simp
qed


section \<open>First occurrences\<close>

lemma filter_swap: "filter P (filter Q xs) = filter Q (filter P xs)"
  by (induction xs) auto

lemma set_firstOccurrences [simp]: "set (firstOccurrences xs) = set xs"
  by (induction xs) auto

lemma distinct_firstOccurrences [simp]: "distinct (firstOccurrences xs)"
  by (induction xs) auto

lemma filter_firstOccurrences:
  "filter P (firstOccurrences xs) = firstOccurrences (filter P xs)"
proof (induction xs)
  case Nil
  then show ?case by simp
next
  case (Cons x xs)
  have "filter P (filter (\<lambda>y. y \<noteq> x) (firstOccurrences xs))
          = filter (\<lambda>y. y \<noteq> x) (filter P (firstOccurrences xs))"
    by (rule filter_swap)
  then have swap: "filter P (filter (\<lambda>y. y \<noteq> x) (firstOccurrences xs))
          = filter (\<lambda>y. y \<noteq> x) (firstOccurrences (filter P xs))"
    by (simp only: Cons.IH)
  show ?case
  proof (cases "P x")
    case True
    with swap show ?thesis by simp
  next
    case False
    then have "filter (\<lambda>y. y \<noteq> x) (firstOccurrences (filter P xs)) = firstOccurrences (filter P xs)"
      by (intro filter_True) auto
    with False swap show ?thesis by simp
  qed
qed

lemma firstOccurrences_seen:
  "x \<in> set ks \<Longrightarrow>
     firstOccurrences (filter (\<lambda>y. y \<notin> set ks) (x # xs)) =
     firstOccurrences (filter (\<lambda>y. y \<notin> set ks) xs)"
  by simp

lemma firstOccurrences_new:
  assumes "x \<notin> set ks"
  shows "ks @ firstOccurrences (filter (\<lambda>y. y \<notin> set ks) (x # xs)) =
         (ks @ [x]) @ firstOccurrences (filter (\<lambda>y. y \<notin> set (ks @ [x])) xs)"
proof -
  have "filter (\<lambda>y. y \<noteq> x) (filter (\<lambda>y. y \<notin> set ks) xs) =
        filter (\<lambda>y. y \<notin> set (ks @ [x])) xs"
    by (induction xs) auto
  then have "filter (\<lambda>y. y \<noteq> x) (firstOccurrences (filter (\<lambda>y. y \<notin> set ks) xs)) =
             firstOccurrences (filter (\<lambda>y. y \<notin> set (ks @ [x])) xs)"
    by (simp only: filter_firstOccurrences)
  with assms show ?thesis by simp
qed


section \<open>Node deduplication\<close>

lemma addNode_cases:
  assumes "addNode numStr acc n = Inr acc'"
  obtains (skip) "\<not> hasId n" "acc' = acc"
  | (store) k where "hasId n" "coercedId numStr n = Inr k" "acc' = AList.update k n acc"
  using assms
  by (auto simp: addNode_def hasId_def coercedId_def split: if_splits sum.splits)

lemma addNodes_Cons_Inr:
  assumes "addNodes numStr acc (n # ns) = Inr out"
  obtains acc' where "addNode numStr acc n = Inr acc'" "addNodes numStr acc' ns = Inr out"
  using assms by (auto split: sum.splits)

lemma addNodes_keys:
  "addNodes numStr acc ns = Inr out \<Longrightarrow>
     map Inr (map fst out) =
       map Inr (map fst acc) @
       firstOccurrences (filter (\<lambda>y. y \<notin> set (map Inr (map fst acc)))
                                (map (coercedId numStr) (filter hasId ns)))"
proof (induction ns arbitrary: acc)
  case Nil
  then show ?case by simp
next
  case (Cons n ns)
  from Cons.prems obtain acc' where
    step: "addNode numStr acc n = Inr acc'" and rest: "addNodes numStr acc' ns = Inr out"
    by (rule addNodes_Cons_Inr)
  note IH = Cons.IH [OF rest]
  from step show ?case
  proof (cases rule: addNode_cases)
    case skip
    with IH show ?thesis by simp
  next
    case (store k)
    let ?ks = "map Inr (map fst acc) :: (error + string) list"
    let ?ks' = "map Inr (map fst acc') :: (error + string) list"
    let ?xs = "map (coercedId numStr) (filter hasId ns)"
    have keys: "?ks' = (if Inr k \<in> set ?ks then ?ks else ?ks @ [Inr k])"
      using store(3) by (auto simp: AList.update_keys)
    have input: "map (coercedId numStr) (filter hasId (n # ns)) = Inr k # ?xs"
      using store by simp
    show ?thesis
    proof (cases "Inr k \<in> set ?ks")
      case True
      with keys have "?ks' = ?ks"
        by (simp only: if_True)
      with IH have "map Inr (map fst out) = ?ks @ firstOccurrences (filter (\<lambda>y. y \<notin> set ?ks) ?xs)"
        by (simp only:)
      also have "\<dots> = ?ks @ firstOccurrences (filter (\<lambda>y. y \<notin> set ?ks) (Inr k # ?xs))"
        by (simp only: firstOccurrences_seen [OF True])
      finally show ?thesis
        by (simp only: input)
    next
      case False
      with keys have "?ks' = ?ks @ [Inr k]"
        by (simp only: if_False)
      with IH have "map Inr (map fst out) =
          (?ks @ [Inr k]) @ firstOccurrences (filter (\<lambda>y. y \<notin> set (?ks @ [Inr k])) ?xs)"
        by (simp only:)
      also have "\<dots> = ?ks @ firstOccurrences (filter (\<lambda>y. y \<notin> set ?ks) (Inr k # ?xs))"
        by (rule firstOccurrences_new [OF False, symmetric])
      finally show ?thesis
        by (simp only: input)
    qed
  qed
qed

lemma set_update_subset: "set (AList.update k v al) \<subseteq> insert (k, v) (set al)"
  by (induction al) auto

lemma addNodes_entries:
  "addNodes numStr acc ns = Inr out \<Longrightarrow> (k, n) \<in> set out \<Longrightarrow>
     (k, n) \<in> set acc \<or> (n \<in> set ns \<and> hasId n \<and> coercedId numStr n = Inr k)"
proof (induction ns arbitrary: acc)
  case Nil
  then show ?case by simp
next
  case (Cons m ns)
  from Cons.prems(1) obtain acc' where
    step: "addNode numStr acc m = Inr acc'" and rest: "addNodes numStr acc' ns = Inr out"
    by (rule addNodes_Cons_Inr)
  from Cons.IH [OF rest Cons.prems(2)]
  consider "(k, n) \<in> set acc'" | "n \<in> set ns \<and> hasId n \<and> coercedId numStr n = Inr k"
    by blast
  then show ?case
  proof cases
    case 1
    from step show ?thesis
    proof (cases rule: addNode_cases)
      case skip
      with 1 show ?thesis by simp
    next
      case (store k')
      with 1 set_update_subset [of k' m acc] show ?thesis by auto
    qed
  next
    case 2
    then show ?thesis by simp
  qed
qed

lemma addNodes_distinct:
  "addNodes numStr acc ns = Inr out \<Longrightarrow> distinct (map fst acc) \<Longrightarrow> distinct (map fst out)"
proof (induction ns arbitrary: acc)
  case Nil
  then show ?case by simp
next
  case (Cons m ns)
  from Cons.prems(1) obtain acc' where
    step: "addNode numStr acc m = Inr acc'" and rest: "addNodes numStr acc' ns = Inr out"
    by (rule addNodes_Cons_Inr)
  from step Cons.prems(2) have "distinct (map fst acc')"
    by (cases rule: addNode_cases) (auto simp: AList.distinct_update)
  with Cons.IH [OF rest] show ?case .
qed

lemma addNodes_lookup:
  "addNodes numStr acc ns = Inr out \<Longrightarrow>
     map_of out k =
       (case filter (\<lambda>m. hasId m \<and> coercedId numStr m = Inr k) ns of
          [] \<Rightarrow> map_of acc k
        | m # ms \<Rightarrow> Some (last (m # ms)))"
proof (induction ns arbitrary: acc)
  case Nil
  then show ?case by simp
next
  case (Cons n ns)
  from Cons.prems(1) obtain acc' where
    step: "addNode numStr acc n = Inr acc'" and rest: "addNodes numStr acc' ns = Inr out"
    by (rule addNodes_Cons_Inr)
  note IH = Cons.IH [OF rest]
  from step show ?case
  proof (cases rule: addNode_cases)
    case skip
    with IH show ?thesis by (simp split: list.splits)
  next
    case (store k')
    with IH show ?thesis
      by (auto simp: AList.update_conv' split: list.splits)
  qed
qed


section \<open>Edge filtering\<close>

lemma strict_member_ids:
  "Str s \<in> set (map (\<lambda>n. get_prop n ''id'') ns) \<longleftrightarrow> (\<exists>n \<in> set ns. get_prop n ''id'' = Str s)"
proof
  assume "Str s \<in> set (map (\<lambda>n. get_prop n ''id'') ns)"
  then obtain n where "n \<in> set ns" "Str s = get_prop n ''id''"
    by auto
  then show "\<exists>n \<in> set ns. get_prop n ''id'' = Str s"
    by (intro bexI [of _ n]) simp_all
next
  assume "\<exists>n \<in> set ns. get_prop n ''id'' = Str s"
  then obtain n where "n \<in> set ns" "get_prop n ''id'' = Str s"
    by blast
  then have "Str s = get_prop n ''id''" by simp
  from this \<open>n \<in> set ns\<close> show "Str s \<in> set (map (\<lambda>n. get_prop n ''id'') ns)"
    unfolding set_map by (rule image_eqI)
qed

lemma filterEdge_Inr:
  assumes "filterEdge numStr (map (\<lambda>n. get_prop n ''id'') ns) e = Inr r"
  shows "r = (if keepsEdge numStr ns e then Some (normalizedEdge numStr e) else None)"
  using assms
  by (auto simp: filterEdge_def keepsEdge_def normalizedEdge_def strict_member_ids
           simp del: set_map split: sum.splits if_splits)

lemma filterEdges_Cons_Inr:
  assumes "filterEdges numStr (map (\<lambda>n. get_prop n ''id'') ns) acc (e # es) = Inr out"
  shows "filterEdges numStr (map (\<lambda>n. get_prop n ''id'') ns)
           (if keepsEdge numStr ns e then acc @ [normalizedEdge numStr e] else acc) es = Inr out"
proof -
  from assms obtain r where r: "filterEdge numStr (map (\<lambda>n. get_prop n ''id'') ns) e = Inr r"
    by (auto split: sum.splits)
  from filterEdge_Inr [OF r] r assms show ?thesis
    by (auto split: if_splits)
qed

lemma filterEdges_kept:
  "filterEdges numStr (map (\<lambda>n. get_prop n ''id'') ns) acc es = Inr out \<Longrightarrow>
     out = acc @ map (normalizedEdge numStr) (filter (keepsEdge numStr ns) es)"
proof (induction es arbitrary: acc)
  case Nil
  then show ?case by simp
next
  case (Cons e es)
  from Cons.IH [OF filterEdges_Cons_Inr [OF Cons.prems]] show ?case
    by simp
qed

lemma filterEdges_append:
  "filterEdges numStr ids acc (es1 @ es2) =
     (case filterEdges numStr ids acc es1 of Inl x \<Rightarrow> Inl x | Inr mid \<Rightarrow> filterEdges numStr ids mid es2)"
  by (induction es1 arbitrary: acc) (auto split: sum.splits option.splits)

lemma filterEdges_dropped:
  assumes "filterEdges numStr (map (\<lambda>n. get_prop n ''id'') ns) acc (es1 @ e # es2) = Inr out"
    and "\<not> keepsEdge numStr ns e"
  shows "filterEdges numStr (map (\<lambda>n. get_prop n ''id'') ns) acc (es1 @ es2) = Inr out"
proof -
  let ?ids = "map (\<lambda>n. get_prop n ''id'') ns"
  from assms(1) obtain mid where
    mid: "filterEdges numStr ?ids acc es1 = Inr mid" and rest: "filterEdges numStr ?ids mid (e # es2) = Inr out"
    by (auto simp: filterEdges_append split: sum.splits)
  from filterEdges_Cons_Inr [OF rest] assms(2) have "filterEdges numStr ?ids mid es2 = Inr out"
    by simp
  with mid show ?thesis
    by (simp add: filterEdges_append)
qed

lemma withEndpoints_props:
  "get_prop (withEndpoints e s t) ''source'' = Str s"
  "get_prop (withEndpoints e s t) ''target'' = Str t"
  by (simp_all add: withEndpoints_def AList.update_conv')

lemma sanitize_Inr:
  assumes "sanitize numStr ns es = Inr g"
  obtains u where "addNodes numStr [] ns = Inr u" "nodes g = map snd u"
    "filterEdges numStr (map (\<lambda>n. get_prop n ''id'') (nodes g)) [] es = Inr (edges g)"
  using assms by (auto simp: sanitize_def Let_def split: sum.splits)

lemma sanitize_nodes_of:
  assumes "addNodes numStr [] ns = Inr u"
    and "filterEdges numStr (map (\<lambda>n. get_prop n ''id'') (map snd u)) [] es = Inr out"
  shows "sanitize numStr ns es = Inr \<lparr>nodes = map snd u, edges = out\<rparr>"
  using assms by (simp add: sanitize_def)


section \<open>The sanitized graph\<close>

lemma sanitize_nodes:
  assumes "sanitize numStr ns es = Inr g"
  obtains u where "addNodes numStr [] ns = Inr u" "nodes g = map snd u" "distinct (map fst u)"
    "\<forall>p \<in> set u. snd p \<in> set ns \<and> hasId (snd p) \<and> coercedId numStr (snd p) = Inr (fst p)"
proof -
  from assms obtain u where u: "addNodes numStr [] ns = Inr u" "nodes g = map snd u"
    by (rule sanitize_Inr)
  have "distinct (map fst u)"
    using addNodes_distinct [OF u(1)] by simp
  moreover have "\<forall>p \<in> set u. snd p \<in> set ns \<and> hasId (snd p) \<and> coercedId numStr (snd p) = Inr (fst p)"
    using addNodes_entries [OF u(1)] by auto
  ultimately show thesis
    using u that by blast
qed

lemma sanitize_edges:
  assumes "sanitize numStr ns es = Inr g"
  shows "edges g = map (normalizedEdge numStr) (filter (keepsEdge numStr (nodes g)) es)"
proof -
  from assms have "filterEdges numStr (map (\<lambda>n. get_prop n ''id'') (nodes g)) [] es = Inr (edges g)"
    by (rule sanitize_Inr)
  from filterEdges_kept [OF this] show ?thesis by simp
qed

lemma keepsEdge_endpoints:
  assumes "keepsEdge numStr ns e"
  obtains s t n m where "coerce numStr e ''source'' = Inr s" "coerce numStr e ''target'' = Inr t"
    "n \<in> set ns" "get_prop n ''id'' = Str s" "m \<in> set ns" "get_prop m ''id'' = Str t"
    "get_prop (normalizedEdge numStr e) ''source'' = Str s"
    "get_prop (normalizedEdge numStr e) ''target'' = Str t"
  using assms
  by (auto simp: keepsEdge_def normalizedEdge_def withEndpoints_props split: sum.splits)

lemma sanitize_referential:
  assumes "sanitize numStr ns es = Inr g" and "e \<in> set (edges g)"
  shows "(\<exists>n \<in> set (nodes g). get_prop e ''source'' = get_prop n ''id'') \<and>
         (\<exists>m \<in> set (nodes g). get_prop e ''target'' = get_prop m ''id'')"
proof -
  from assms sanitize_edges [OF assms(1)] obtain e0 where
    e0: "keepsEdge numStr (nodes g) e0" "e = normalizedEdge numStr e0"
    by auto
  from e0(1) obtain s t n m where
    "n \<in> set (nodes g)" "get_prop n ''id'' = Str s"
    "m \<in> set (nodes g)" "get_prop m ''id'' = Str t"
    "get_prop (normalizedEdge numStr e0) ''source'' = Str s"
    "get_prop (normalizedEdge numStr e0) ''target'' = Str t"
    by (rule keepsEdge_endpoints)
  with e0(2) show ?thesis
    by metis
qed

lemma processGeminiOutput_graphData:
  assumes "processGeminiOutput numStr JSON_parse text chunks supports queries = Inr r"
  shows "graphData r = \<lparr>nodes = [], edges = []\<rparr> \<or> (\<exists>ns es. sanitize numStr ns es = Inr (graphData r))"
  using assms
  by (auto simp: processGeminiOutput_def Let_def split: sum.splits option.splits if_splits)

lemma sanitize_dropped:
  assumes "sanitize numStr ns (es1 @ e # es2) = Inr g" and "\<not> keepsEdge numStr (nodes g) e"
  shows "sanitize numStr ns (es1 @ es2) = Inr g"
proof -
  from assms(1) obtain u where u: "addNodes numStr [] ns = Inr u" "nodes g = map snd u"
    and f: "filterEdges numStr (map (\<lambda>n. get_prop n ''id'') (nodes g)) [] (es1 @ e # es2) = Inr (edges g)"
    by (rule sanitize_Inr)
  from filterEdges_dropped [OF f assms(2)] u show ?thesis
    by (simp add: sanitize_def)
qed

text \<open>
  C1. Every edge of the output graph has a source and a target that are the ids of nodes
  of the output graph. An edge whose coerced source or target is not such an id is
  dropped: the result is the one obtained without that edge, so the nodes and the other
  edges are what they would be anyway.
\<close>

theorem edges_reference_surviving_nodes:
  "(processGeminiOutput numStr JSON_parse text chunks supports queries = Inr r \<longrightarrow>
      (\<forall>e \<in> set (edges (graphData r)).
         (\<exists>n \<in> set (nodes (graphData r)). get_prop e ''source'' = get_prop n ''id'') \<and>
         (\<exists>m \<in> set (nodes (graphData r)). get_prop e ''target'' = get_prop m ''id''))) \<and>
   (sanitize numStr ns (es1 @ x # es2) = Inr g \<longrightarrow> \<not> keepsEdge numStr (nodes g) x \<longrightarrow>
      sanitize numStr ns (es1 @ es2) = Inr g)"
proof -
  have "\<forall>e \<in> set (edges (graphData r)).
         (\<exists>n \<in> set (nodes (graphData r)). get_prop e ''source'' = get_prop n ''id'') \<and>
         (\<exists>m \<in> set (nodes (graphData r)). get_prop e ''target'' = get_prop m ''id'')"
    if run: "processGeminiOutput numStr JSON_parse text chunks supports queries = Inr r"
  proof
    fix e
    assume e: "e \<in> set (edges (graphData r))"
    from processGeminiOutput_graphData [OF run] e obtain ns' es' where
      "sanitize numStr ns' es' = Inr (graphData r)"
      by auto
    from sanitize_referential [OF this e]
    show "(\<exists>n \<in> set (nodes (graphData r)). get_prop e ''source'' = get_prop n ''id'') \<and>
          (\<exists>m \<in> set (nodes (graphData r)). get_prop e ''target'' = get_prop m ''id'')" .
  qed
  moreover have "sanitize numStr ns (es1 @ es2) = Inr g"
    if "sanitize numStr ns (es1 @ x # es2) = Inr g" and "\<not> keepsEdge numStr (nodes g) x"
    using that by (rule sanitize_dropped)
  ultimately show ?thesis
    by blast
qed

text \<open>
  C2, as amended. Whatever digits \<open>String\<close> gives to numbers, nodes are
  deduplicated by their id coerced to a string: the output has
  exactly one node for each coerced id, in the order in which the ids first occur, and
  that node is the last input node with that id, since each later node overwrites the map
  entry of the earlier one. A node that is falsy or whose id is missing or falsy (empty
  string, zero, false, null) is dropped.
\<close>

theorem last_node_per_id_wins:
  assumes "sanitize numStr ns es = Inr g"
  shows "map (coercedId numStr) (nodes g) = firstOccurrences (map (coercedId numStr) (filter hasId ns)) \<and>
         (\<forall>n \<in> set (nodes g).
            hasId n \<and> n = last (filter (\<lambda>m. hasId m \<and> coercedId numStr m = coercedId numStr n) ns))"
proof (intro conjI ballI)
  from assms obtain u where u: "addNodes numStr [] ns = Inr u" "nodes g = map snd u"
    "distinct (map fst u)"
    "\<forall>p \<in> set u. snd p \<in> set ns \<and> hasId (snd p) \<and> coercedId numStr (snd p) = Inr (fst p)"
    by (rule sanitize_nodes)
  have "map (coercedId numStr) (map snd u) = map Inr (map fst u)"
    using u(4) by simp
  with addNodes_keys [OF u(1)] u(2)
  show "map (coercedId numStr) (nodes g) = firstOccurrences (map (coercedId numStr) (filter hasId ns))"
    by simp
  fix n
  assume "n \<in> set (nodes g)"
  with u(2) obtain k where kn: "(k, n) \<in> set u"
    by auto
  with u(4) have n: "hasId n" "coercedId numStr n = Inr k"
    by auto
  from kn u(3) have "map_of u k = Some n"
    by simp
  with addNodes_lookup [OF u(1), of k]
  have "n = last (filter (\<lambda>m. hasId m \<and> coercedId numStr m = Inr k) ns)"
    by (auto split: list.splits)
  with n show "hasId n" "n = last (filter (\<lambda>m. hasId m \<and> coercedId numStr m = coercedId numStr n) ns)"
    by simp_all
qed



text \<open>
  C2 as stated says that the first node with an id wins. Of two nodes with id \<open>"1"\<close>
  the code keeps the second.
\<close>

theorem first_node_wins_counterexample:
  "sanitize sampleNumStr [mkNode ''1'' ''A'', mkNode ''1'' ''A - Duplicate''] [] =
     Inr \<lparr>nodes = [mkNode ''1'' ''A - Duplicate''], edges = []\<rparr> \<and>
   mkNode ''1'' ''A - Duplicate'' \<noteq> mkNode ''1'' ''A''"
  by code_simp

theorem last_node_per_id_wins_witness:
  "sanitize sampleNumStr
     [mkNode ''1'' ''A'', Null, mkNode ''2'' ''B'', mkNode ''1'' ''C'', Obj [(''id'', Str [])],
      Obj [(''id'', Num 1152921504606846976)], mkNode ''1152921504606847000'' ''D''] [] =
     Inr \<lparr>nodes = [mkNode ''1'' ''C'', mkNode ''2'' ''B'', mkNode ''1152921504606847000'' ''D''],
          edges = []\<rparr> \<and>
   map (coercedId sampleNumStr)
     [mkNode ''1'' ''C'', mkNode ''2'' ''B'', mkNode ''1152921504606847000'' ''D''] =
     firstOccurrences (map (coercedId sampleNumStr) (filter hasId
       [mkNode ''1'' ''A'', Null, mkNode ''2'' ''B'', mkNode ''1'' ''C'', Obj [(''id'', Str [])],
        Obj [(''id'', Num 1152921504606846976)], mkNode ''1152921504606847000'' ''D'']))"
proof -
  have run: "sanitize sampleNumStr
     [mkNode ''1'' ''A'', Null, mkNode ''2'' ''B'', mkNode ''1'' ''C'', Obj [(''id'', Str [])],
      Obj [(''id'', Num 1152921504606846976)], mkNode ''1152921504606847000'' ''D''] [] =
     Inr \<lparr>nodes = [mkNode ''1'' ''C'', mkNode ''2'' ''B'', mkNode ''1152921504606847000'' ''D''],
          edges = []\<rparr>"
    by code_simp
  from last_node_per_id_wins [OF run] run show ?thesis
    by simp
qed


theorem edges_reference_surviving_nodes_witness:
  \<open>processGeminiOutput sampleNumStr sampleParse
     ''{"nodes":[{"id":"1","label":"A"}],"edges":[{"source":"1","target":"1","relation":"self"}]}''
     [] [] [] =
     Inr \<lparr>graphData = \<lparr>nodes = [mkNode ''1'' ''A''], edges = [mkEdge ''1'' ''1'' ''self'']\<rparr>,
          sources = [], searchQueries = [], summary = [], groundingSupports = []\<rparr> \<and>
   get_prop (mkEdge ''1'' ''1'' ''self'') ''source'' = get_prop (mkNode ''1'' ''A'') ''id'' \<and>
   get_prop (mkEdge ''1'' ''1'' ''self'') ''target'' = get_prop (mkNode ''1'' ''A'') ''id'' \<and>
   sanitize sampleNumStr [mkNode ''1'' ''A'', mkNode ''2'' ''B'']
     ([mkEdge ''1'' ''2'' ''connected''] @ mkEdge ''1'' ''999'' ''broken'' # []) =
     Inr \<lparr>nodes = [mkNode ''1'' ''A'', mkNode ''2'' ''B''],
          edges = [mkEdge ''1'' ''2'' ''connected'']\<rparr> \<and>
   \<not> keepsEdge sampleNumStr [mkNode ''1'' ''A'', mkNode ''2'' ''B''] (mkEdge ''1'' ''999'' ''broken'') \<and>
   sanitize sampleNumStr [mkNode ''1'' ''A'', mkNode ''2'' ''B''] ([mkEdge ''1'' ''2'' ''connected''] @ []) =
     Inr \<lparr>nodes = [mkNode ''1'' ''A'', mkNode ''2'' ''B''],
          edges = [mkEdge ''1'' ''2'' ''connected'']\<rparr>\<close>
proof -
  let ?r = "\<lparr>graphData = \<lparr>nodes = [mkNode ''1'' ''A''], edges = [mkEdge ''1'' ''1'' ''self'']\<rparr>,
          sources = [], searchQueries = [], summary = [], groundingSupports = []\<rparr>"
  let ?g = "\<lparr>nodes = [mkNode ''1'' ''A'', mkNode ''2'' ''B''],
          edges = [mkEdge ''1'' ''2'' ''connected'']\<rparr>"
  have run: \<open>processGeminiOutput sampleNumStr sampleParse
     ''{"nodes":[{"id":"1","label":"A"}],"edges":[{"source":"1","target":"1","relation":"self"}]}''
     [] [] [] = Inr ?r\<close>
    by code_simp
  have san: "sanitize sampleNumStr [mkNode ''1'' ''A'', mkNode ''2'' ''B'']
     ([mkEdge ''1'' ''2'' ''connected''] @ mkEdge ''1'' ''999'' ''broken'' # []) = Inr ?g"
    by code_simp
  have broken: "\<not> keepsEdge sampleNumStr (nodes ?g) (mkEdge ''1'' ''999'' ''broken'')"
    by code_simp
  from edges_reference_surviving_nodes [of sampleNumStr sampleParse _ "[]" "[]" "[]" ?r
      "[mkNode ''1'' ''A'', mkNode ''2'' ''B'']" "[mkEdge ''1'' ''2'' ''connected'']"
      "mkEdge ''1'' ''999'' ''broken''" "[]" ?g] run san broken
  show ?thesis
    by simp
qed


section \<open>Extracted sources\<close>

lemma webUri_Some:
  assumes "webUri chunk = Some u"
  shows "truthy chunk" "truthy (get_prop chunk ''web'')"
    "get_prop (get_prop chunk ''web'') ''uri'' = Str u" "u \<noteq> []"
proof -
  from assms show uri: "get_prop (get_prop chunk ''web'') ''uri'' = Str u" and "u \<noteq> []"
    by (auto simp: webUri_def split: jsval.splits if_splits)
  from uri obtain kvs where web: "get_prop chunk ''web'' = Obj kvs"
    by (cases "get_prop chunk ''web''") auto
  then show "truthy (get_prop chunk ''web'')"
    by simp
  from web show "truthy chunk"
    by (cases chunk) auto
qed

lemma addChunk_Some:
  assumes "webUri chunk = Some u"
  shows "addChunk (sm, im) index chunk =
           Inr (if map_of sm (normalizeUri u) = None \<or>
                   (\<exists>existing. map_of sm (normalizeUri u) = Some existing \<and>
                      title existing = placeholder \<and> truthy (webTitle chunk))
                then AList.update (normalizeUri u) (storedSource chunk u) sm
                else sm,
                AList.update index (normalizeUri u) im)"
  using webUri_Some [OF assms]
  by (auto simp: addChunk_def Let_def storedSource_def webTitle_def split: option.splits)

lemma addChunk_None:
  assumes "webUri chunk = None" and "addChunk st index chunk = Inr st'"
  shows "st' = st"
  using assms
  by (auto simp: addChunk_def Let_def webUri_def split: if_splits jsval.splits)


lemma firstOccurrences_step:
  assumes "ks' = (if x \<in> set ks then ks else ks @ [x])"
    and "out = ks' @ firstOccurrences (filter (\<lambda>y. y \<notin> set ks') xs)"
  shows "out = ks @ firstOccurrences (filter (\<lambda>y. y \<notin> set ks) (x # xs))"
proof (cases "x \<in> set ks")
  case True
  with assms have "out = ks @ firstOccurrences (filter (\<lambda>y. y \<notin> set ks) xs)"
    by (simp only: if_True)
  then show ?thesis
    by (simp only: firstOccurrences_seen [OF True])
next
  case False
  with assms have "out = (ks @ [x]) @ firstOccurrences (filter (\<lambda>y. y \<notin> set (ks @ [x])) xs)"
    by (simp only: if_False)
  then show ?thesis
    by (simp only: firstOccurrences_new [OF False])
qed

lemma map_of_Some_key: "map_of al k = Some v \<Longrightarrow> k \<in> set (map fst al)"
  by (induction al) (auto split: if_splits)

lemma addChunk_keys:
  assumes "addChunk (sm, im) index chunk = Inr (sm', im')"
  shows "map fst sm' =
           (case webUri chunk of
              None \<Rightarrow> map fst sm
            | Some u \<Rightarrow>
                if normalizeUri u \<in> set (map fst sm) then map fst sm
                else map fst sm @ [normalizeUri u])"
proof (cases "webUri chunk")
  case None
  from addChunk_None [OF None assms] None show ?thesis
    by simp
next
  case (Some u)
  let ?k = "normalizeUri u"
  from assms addChunk_Some [OF Some, of sm im index]
  consider "sm' = AList.update ?k (storedSource chunk u) sm"
    | existing where "sm' = sm" "map_of sm ?k = Some existing"
    by (auto split: if_splits)
  then have "map fst sm' = (if ?k \<in> set (map fst sm) then map fst sm else map fst sm @ [?k])"
  proof cases
    case 1
    then show ?thesis
      by (simp only: AList.update_keys)
  next
    case 2
    with map_of_Some_key [OF 2(2)] show ?thesis
      by (simp only: if_True)
  qed
  with Some show ?thesis
    by simp
qed

lemma extractSources_Cons_Inr:
  assumes "extractSources (sm, im) index (chunk # chunks) = Inr (sm', im')"
  obtains sm1 im1 where "addChunk (sm, im) index chunk = Inr (sm1, im1)"
    "extractSources (sm1, im1) (Suc index) chunks = Inr (sm', im')"
  using assms by (auto split: sum.splits)

lemma extractSources_keys:
  "extractSources (sm, im) index chunks = Inr (sm', im') \<Longrightarrow>
     map fst sm' =
       map fst sm @
       firstOccurrences (filter (\<lambda>y. y \<notin> set (map fst sm))
                                (map normalizeUri (List.map_filter webUri chunks)))"
proof (induction chunks arbitrary: sm im index)
  case Nil
  then show ?case by (simp add: List.map_filter_simps)
next
  case (Cons c chunks)
  from Cons.prems obtain sm1 im1 where
    step: "addChunk (sm, im) index c = Inr (sm1, im1)"
    and rest: "extractSources (sm1, im1) (Suc index) chunks = Inr (sm', im')"
    by (rule extractSources_Cons_Inr)
  note IH = Cons.IH [OF rest]
  show ?case
  proof (cases "webUri c")
    case None
    with addChunk_keys [OF step] IH show ?thesis
      by (simp add: List.map_filter_simps)
  next
    case (Some u)
    with addChunk_keys [OF step]
    have "map fst sm1 =
            (if normalizeUri u \<in> set (map fst sm) then map fst sm
             else map fst sm @ [normalizeUri u])"
      by simp
    from firstOccurrences_step [OF this IH] Some show ?thesis
      by (simp add: List.map_filter_simps)
  qed
qed

lemma extractSources_distinct:
  "extractSources (sm, im) index chunks = Inr (sm', im') \<Longrightarrow>
     distinct (map fst sm) \<Longrightarrow> distinct (map fst sm')"
  by (auto simp: extractSources_keys)

lemma extractSources_entries:
  "extractSources (sm, im) index chunks = Inr (sm', im') \<Longrightarrow> (k, s) \<in> set sm' \<Longrightarrow>
     (k, s) \<in> set sm \<or>
     (\<exists>c \<in> set chunks. webUri c = Some (uri s) \<and> normalizeUri (uri s) = k \<and>
                        s = storedSource c (uri s))"
proof (induction chunks arbitrary: sm im index)
  case Nil
  then show ?case by simp
next
  case (Cons c chunks)
  from Cons.prems(1) obtain sm1 im1 where
    step: "addChunk (sm, im) index c = Inr (sm1, im1)"
    and rest: "extractSources (sm1, im1) (Suc index) chunks = Inr (sm', im')"
    by (rule extractSources_Cons_Inr)
  from Cons.IH [OF rest Cons.prems(2)]
  consider "(k, s) \<in> set sm1"
    | "\<exists>c \<in> set chunks. webUri c = Some (uri s) \<and> normalizeUri (uri s) = k \<and>
                         s = storedSource c (uri s)"
    by blast
  then show ?case
  proof cases
    case 1
    show ?thesis
    proof (cases "webUri c")
      case None
      from addChunk_None [OF None step] 1 show ?thesis
        by simp
    next
      case (Some u)
      from step addChunk_Some [OF Some, of sm im index]
      have "sm1 = sm \<or> sm1 = AList.update (normalizeUri u) (storedSource c u) sm"
        by (auto split: if_splits)
      with 1 set_update_subset [of "normalizeUri u" "storedSource c u" sm] Some
      show ?thesis
        by (auto simp: storedSource_def)
    qed
  next
    case 2
    then show ?thesis by auto
  qed
qed


lemma map_update_same:
  "map_of al k = Some v \<Longrightarrow> f (k, v') = f (k, v) \<Longrightarrow> map f (AList.update k v' al) = map f al"
  by (induction al) (auto split: if_splits)

lemma countCitation_frame:
  "map (\<lambda>p. (fst p, title (snd p), uri (snd p))) (countCitation im chunkIndex sm) =
   map (\<lambda>p. (fst p, title (snd p), uri (snd p))) sm"
  by (auto simp: countCitation_def map_update_same split: option.splits)

lemma fold_countCitation_frame:
  "map (\<lambda>p. (fst p, title (snd p), uri (snd p))) (fold (countCitation im) indices sm) =
   map (\<lambda>p. (fst p, title (snd p), uri (snd p))) sm"
  by (induction indices arbitrary: sm) (simp_all add: countCitation_frame)

lemma linkSupports_frame:
  "linkSupports im (sm, cs) supports = Inr (sm', cs') \<Longrightarrow>
     map (\<lambda>p. (fst p, title (snd p), uri (snd p))) sm' =
     map (\<lambda>p. (fst p, title (snd p), uri (snd p))) sm"
proof (induction supports arbitrary: sm cs)
  case Nil
  then show ?case by simp
next
  case (Cons s supports)
  from Cons.prems obtain sm1 cs1 where
    step: "linkSupport im (sm, cs) s = Inr (sm1, cs1)"
    and rest: "linkSupports im (sm1, cs1) supports = Inr (sm', cs')"
    by (auto split: sum.splits)
  from step have "sm1 = sm \<or> (\<exists>indices. sm1 = fold (countCitation im) indices sm)"
    by (auto simp: linkSupport_def Let_def split: sum.splits if_splits jsval.splits)
  then have "map (\<lambda>p. (fst p, title (snd p), uri (snd p))) sm1 =
             map (\<lambda>p. (fst p, title (snd p), uri (snd p))) sm"
    by (auto simp: fold_countCitation_frame)
  with Cons.IH [OF rest] show ?case
    by simp
qed

lemma citations_Inr:
  assumes "citations chunks supports = Inr (sm, cs)"
  obtains sm0 im where "extractSources ([], []) 0 chunks = Inr (sm0, im)"
    "linkSupports im (sm0, []) supports = Inr (sm, cs)"
  using assms by (auto simp: citations_def split: sum.splits)

lemma processGeminiOutput_sources:
  assumes "processGeminiOutput numStr JSON_parse text chunks supports queries = Inr r"
  obtains sm cs where "citations chunks supports = Inr (sm, cs)" "sources r = map snd sm"
  using assms
  by (auto simp: processGeminiOutput_def Let_def split: sum.splits option.splits if_splits)

lemma citations_sources:
  assumes "citations chunks supports = Inr (sm, cs)"
  shows "map (\<lambda>s. normalizeUri (uri s)) (map snd sm) =
           firstOccurrences (map normalizeUri (List.map_filter webUri chunks))"
    and "\<forall>s \<in> set (map snd sm). \<exists>c \<in> set chunks. webUri c = Some (uri s)"
proof -
  from assms obtain sm0 im where
    ex: "extractSources ([], []) 0 chunks = Inr (sm0, im)"
    and li: "linkSupports im (sm0, []) supports = Inr (sm, cs)"
    by (rule citations_Inr)
  have entries: "\<forall>p \<in> set sm0. (\<exists>c \<in> set chunks. webUri c = Some (uri (snd p))) \<and>
                                normalizeUri (uri (snd p)) = fst p"
    using extractSources_entries [OF ex] by fastforce
  have "map (\<lambda>p. (fst p, title (snd p), uri (snd p))) sm =
        map (\<lambda>p. (fst p, title (snd p), uri (snd p))) sm0"
    using li by (rule linkSupports_frame)
  then have "map (\<lambda>t. snd (snd t)) (map (\<lambda>p. (fst p, title (snd p), uri (snd p))) sm) =
             map (\<lambda>t. snd (snd t)) (map (\<lambda>p. (fst p, title (snd p), uri (snd p))) sm0)"
    by (simp only:)
  then have uris: "map uri (map snd sm) = map uri (map snd sm0)"
    by (simp add: comp_def)
  then have "map normalizeUri (map uri (map snd sm)) = map normalizeUri (map uri (map snd sm0))"
    by (simp only:)
  also have "\<dots> = map fst sm0"
    using entries by (simp add: comp_def)
  also have "\<dots> = firstOccurrences (map normalizeUri (List.map_filter webUri chunks))"
    using extractSources_keys [OF ex] by simp
  finally show "map (\<lambda>s. normalizeUri (uri s)) (map snd sm) =
           firstOccurrences (map normalizeUri (List.map_filter webUri chunks))"
    by (simp add: comp_def)
  show "\<forall>s \<in> set (map snd sm). \<exists>c \<in> set chunks. webUri c = Some (uri s)"
  proof
    fix s
    assume "s \<in> set (map snd sm)"
    then have "uri s \<in> uri ` set (map snd sm)"
      by (rule imageI)
    then have "uri s \<in> set (map uri (map snd sm))"
      by (simp only: set_map)
    with uris have "uri s \<in> set (map uri (map snd sm0))"
      by simp
    then obtain p where "p \<in> set sm0" "uri (snd p) = uri s"
      by auto
    with entries show "\<exists>c \<in> set chunks. webUri c = Some (uri s)"
      by metis
  qed
qed

text \<open>
  C7. No two sources of the output have uris with the same normalized form; every source
  has the uri of a chunk that carries a non-empty web uri, so a chunk without one produces
  none; and the sources stand in the order in which their normalized uris first occur
  among the chunks.
\<close>

theorem sources_unique_and_ordered:
  assumes "processGeminiOutput numStr JSON_parse text chunks supports queries = Inr r"
  shows "distinct (map (\<lambda>s. normalizeUri (uri s)) (sources r)) \<and>
         (\<forall>s \<in> set (sources r). \<exists>c \<in> set chunks. webUri c = Some (uri s)) \<and>
         map (\<lambda>s. normalizeUri (uri s)) (sources r) =
           firstOccurrences (map normalizeUri (List.map_filter webUri chunks))"
proof -
  from assms obtain sm cs where
    c: "citations chunks supports = Inr (sm, cs)" and s: "sources r = map snd sm"
    by (rule processGeminiOutput_sources)
  from citations_sources [OF c] s show ?thesis
    by simp
qed


lemma addChunk_title_stable:
  assumes "addChunk (sm, im) index chunk = Inr (sm1, im1)"
    and "map_of sm k = Some s" and "title s \<noteq> placeholder"
  shows "map_of sm1 k = Some s"
proof (cases "webUri chunk")
  case None
  from addChunk_None [OF None assms(1)] assms(2) show ?thesis
    by simp
next
  case (Some u)
  from assms(1) addChunk_Some [OF Some, of sm im index]
  consider "sm1 = sm"
    | "sm1 = AList.update (normalizeUri u) (storedSource chunk u) sm"
      "map_of sm (normalizeUri u) = None \<or>
       (\<exists>existing. map_of sm (normalizeUri u) = Some existing \<and> title existing = placeholder)"
    by (auto split: if_splits)
  then show ?thesis
  proof cases
    case 1
    with assms(2) show ?thesis by simp
  next
    case 2
    with assms(2,3) have "normalizeUri u \<noteq> k"
      by auto
    with 2(1) assms(2) show ?thesis
      by (simp add: AList.update_conv')
  qed
qed

lemma extractSources_title_stable:
  "extractSources (sm, im) index chunks = Inr (smN, imN) \<Longrightarrow>
     map_of sm k = Some s \<Longrightarrow> title s \<noteq> placeholder \<Longrightarrow> map_of smN k = Some s"
proof (induction chunks arbitrary: sm im index)
  case Nil
  then show ?case by simp
next
  case (Cons c chunks)
  from Cons.prems(1) obtain sm1 im1 where
    step: "addChunk (sm, im) index c = Inr (sm1, im1)"
    and rest: "extractSources (sm1, im1) (Suc index) chunks = Inr (smN, imN)"
    by (rule extractSources_Cons_Inr)
  from addChunk_title_stable [OF step Cons.prems(2,3)] have "map_of sm1 k = Some s" .
  from Cons.IH [OF rest this Cons.prems(3)] show ?case .
qed

lemma extractSources_append:
  "extractSources st index (xs @ ys) =
     (case extractSources st index xs of
        Inl e \<Rightarrow> Inl e
      | Inr st' \<Rightarrow> extractSources st' (index + length xs) ys)"
  by (induction xs arbitrary: st index) (auto split: sum.splits)

lemma extractSources_snoc:
  assumes "extractSources ([], []) 0 (pre @ [chunk]) = Inr (sm1, im1)"
  obtains sm im where "extractSources ([], []) 0 pre = Inr (sm, im)"
    "addChunk (sm, im) (length pre) chunk = Inr (sm1, im1)"
  using assms by (auto simp: extractSources_append split: sum.splits)

lemma extractSources_fresh_key:
  assumes "extractSources ([], []) 0 pre = Inr (sm, im)"
    and "\<forall>c \<in> set pre. \<forall>v. webUri c = Some v \<longrightarrow> normalizeUri v \<noteq> k"
  shows "map_of sm k = None"
proof -
  from extractSources_keys [OF assms(1)]
  have "set (map fst sm) = set (map normalizeUri (List.map_filter webUri pre))"
    by simp
  then have "k \<notin> set (map fst sm)"
    using assms(2) by (auto simp: List.map_filter_def)
  then show ?thesis
    by (simp add: map_of_eq_None_iff)
qed

lemma addChunk_upgrade:
  assumes "addChunk (sm, im) index chunk = Inr (sm1, im1)"
    and "map_of sm k = Some existing"
  shows "\<exists>s'. map_of sm1 k = Some s' \<and>
           (title s' \<noteq> title existing \<longrightarrow>
              title existing = placeholder \<and> truthy (webTitle chunk) \<and>
              (\<exists>v. webUri chunk = Some v \<and> normalizeUri v = k)) \<and>
           (title existing = placeholder \<and> truthy (webTitle chunk) \<and>
              (\<exists>v. webUri chunk = Some v \<and> normalizeUri v = k) \<longrightarrow>
              title s' = webTitle chunk)"
proof (cases "webUri chunk")
  case None
  from addChunk_None [OF None assms(1)] assms(2) None show ?thesis
    by simp
next
  case (Some v)
  show ?thesis
  proof (cases "normalizeUri v = k")
    case True
    from assms(1) addChunk_Some [OF Some, of sm im index] assms(2) True Some show ?thesis
      by (auto simp: AList.update_conv' storedSource_def split: if_splits)
  next
    case False
    from assms(1) addChunk_Some [OF Some, of sm im index]
    have "sm1 = sm \<or> sm1 = AList.update (normalizeUri v) (storedSource chunk v) sm"
      by (auto split: if_splits)
    with False assms(2) have "map_of sm1 k = Some existing"
      by (auto simp: AList.update_conv')
    with False Some show ?thesis
      by simp
  qed
qed

text \<open>
  C6. The extractor is run from its empty state on a chunk list. A chunk that is the first
  of the list for its normalized uri leaves a source whose title is the chunk's web title
  when that is present (truthy: a missing, null or empty title counts as absent) and the
  placeholder otherwise. One more chunk changes the title of a stored source only if the
  stored title is the placeholder and the chunk has a title and the same normalized uri,
  and then the title becomes the chunk's. A stored title other than the placeholder
  survives every continuation of the list.
\<close>

theorem title_upgrade_one_directional:
  "(extractSources ([], []) 0 (pre @ [chunk]) = Inr (sm1, im1) \<longrightarrow>
      webUri chunk = Some u \<longrightarrow>
      (\<forall>c \<in> set pre. \<forall>v. webUri c = Some v \<longrightarrow> normalizeUri v \<noteq> normalizeUri u) \<longrightarrow>
      map_of sm1 (normalizeUri u) =
        Some \<lparr>title = (if truthy (webTitle chunk) then webTitle chunk else placeholder),
              uri = u, citationCount = 0\<rparr>) \<and>
   (extractSources ([], []) 0 pre = Inr (sm, im) \<longrightarrow>
      extractSources ([], []) 0 (pre @ [chunk]) = Inr (sm1, im1) \<longrightarrow>
      map_of sm k = Some existing \<longrightarrow>
      (\<exists>s'. map_of sm1 k = Some s' \<and>
         (title s' \<noteq> title existing \<longrightarrow>
            title existing = placeholder \<and> truthy (webTitle chunk) \<and>
            (\<exists>v. webUri chunk = Some v \<and> normalizeUri v = k)) \<and>
         (title existing = placeholder \<and> truthy (webTitle chunk) \<and>
            (\<exists>v. webUri chunk = Some v \<and> normalizeUri v = k) \<longrightarrow>
            title s' = webTitle chunk))) \<and>
   (extractSources ([], []) 0 pre = Inr (sm, im) \<longrightarrow>
      extractSources ([], []) 0 (pre @ rest) = Inr (smN, imN) \<longrightarrow>
      map_of sm k = Some s \<longrightarrow> title s \<noteq> placeholder \<longrightarrow> map_of smN k = Some s)"
proof -
  have first: "map_of sm1 (normalizeUri u) =
        Some \<lparr>title = (if truthy (webTitle chunk) then webTitle chunk else placeholder),
              uri = u, citationCount = 0\<rparr>"
    if run: "extractSources ([], []) 0 (pre @ [chunk]) = Inr (sm1, im1)"
      and u: "webUri chunk = Some u"
      and new: "\<forall>c \<in> set pre. \<forall>v. webUri c = Some v \<longrightarrow> normalizeUri v \<noteq> normalizeUri u"
  proof -
    from run obtain sm0 im0 where
      before: "extractSources ([], []) 0 pre = Inr (sm0, im0)"
      and step: "addChunk (sm0, im0) (length pre) chunk = Inr (sm1, im1)"
      by (rule extractSources_snoc)
    from extractSources_fresh_key [OF before new] have "map_of sm0 (normalizeUri u) = None" .
    with step addChunk_Some [OF u, of sm0 im0 "length pre"]
    have "sm1 = AList.update (normalizeUri u) (storedSource chunk u) sm0"
      by simp
    then show ?thesis
      by (simp add: AList.update_conv' storedSource_def)
  qed
  have later: "\<exists>s'. map_of sm1 k = Some s' \<and>
         (title s' \<noteq> title existing \<longrightarrow>
            title existing = placeholder \<and> truthy (webTitle chunk) \<and>
            (\<exists>v. webUri chunk = Some v \<and> normalizeUri v = k)) \<and>
         (title existing = placeholder \<and> truthy (webTitle chunk) \<and>
            (\<exists>v. webUri chunk = Some v \<and> normalizeUri v = k) \<longrightarrow>
            title s' = webTitle chunk)"
    if before: "extractSources ([], []) 0 pre = Inr (sm, im)"
      and run: "extractSources ([], []) 0 (pre @ [chunk]) = Inr (sm1, im1)"
      and stored: "map_of sm k = Some existing"
  proof -
    from run before have "addChunk (sm, im) (length pre) chunk = Inr (sm1, im1)"
      by (auto simp: extractSources_append split: sum.splits)
    from addChunk_upgrade [OF this stored] show ?thesis .
  qed
  have stable: "map_of smN k = Some s"
    if before: "extractSources ([], []) 0 pre = Inr (sm, im)"
      and run: "extractSources ([], []) 0 (pre @ rest) = Inr (smN, imN)"
      and stored: "map_of sm k = Some s" "title s \<noteq> placeholder"
  proof -
    from run before have "extractSources (sm, im) (0 + length pre) rest = Inr (smN, imN)"
      by (simp add: extractSources_append)
    from extractSources_title_stable [OF this stored] show ?thesis .
  qed
  from first later stable show ?thesis
    by blast
qed


theorem title_upgrade_one_directional_witness:
  "extractSources ([], []) 0 ([] @ [untitledChunk ''http://example.com'']) =
     Inr ([(''http://example.com'',
            \<lparr>title = placeholder, uri = ''http://example.com'', citationCount = 0\<rparr>)],
          [(0, ''http://example.com'')]) \<and>
   extractSources ([], []) 0
     ([untitledChunk ''http://example.com''] @
      [webChunk ''http://example.com'' (Str ''Better Title'')]) =
     Inr ([(''http://example.com'',
            \<lparr>title = Str ''Better Title'', uri = ''http://example.com'', citationCount = 0\<rparr>)],
          [(0, ''http://example.com''), (1, ''http://example.com'')]) \<and>
   extractSources ([], []) 0
     ([untitledChunk ''http://example.com'',
       webChunk ''http://example.com'' (Str ''Better Title'')] @
      [webChunk ''http://example.com'' (Str ''New Title'')]) =
     Inr ([(''http://example.com'',
            \<lparr>title = Str ''Better Title'', uri = ''http://example.com'', citationCount = 0\<rparr>)],
          [(0, ''http://example.com''), (1, ''http://example.com''),
           (2, ''http://example.com'')]) \<and>
   map_of [(''http://example.com'',
            \<lparr>title = placeholder, uri = ''http://example.com'', citationCount = 0\<rparr>)]
          (normalizeUri ''http://example.com'') =
     Some \<lparr>title = (if truthy (webTitle (untitledChunk ''http://example.com''))
                     then webTitle (untitledChunk ''http://example.com'') else placeholder),
           uri = ''http://example.com'', citationCount = 0\<rparr> \<and>
   title (the (map_of [(''http://example.com'',
            \<lparr>title = Str ''Better Title'', uri = ''http://example.com'', citationCount = 0\<rparr>)]
          ''http://example.com'')) =
     webTitle (webChunk ''http://example.com'' (Str ''Better Title''))"
proof -
  let ?u = "''http://example.com''"
  let ?c1 = "untitledChunk ?u"
  let ?c2 = "webChunk ?u (Str ''Better Title'')"
  let ?c3 = "webChunk ?u (Str ''New Title'')"
  let ?e1 = "\<lparr>title = placeholder, uri = ?u, citationCount = 0\<rparr>"
  let ?e2 = "\<lparr>title = Str ''Better Title'', uri = ?u, citationCount = 0\<rparr>"
  have run0: "extractSources ([], []) 0 [] = Inr ([], [])"
    by simp
  have run1: "extractSources ([], []) 0 ([] @ [?c1]) = Inr ([(?u, ?e1)], [(0, ?u)])"
    by code_simp
  have run1': "extractSources ([], []) 0 [?c1] = Inr ([(?u, ?e1)], [(0, ?u)])"
    by code_simp
  have run2: "extractSources ([], []) 0 ([?c1] @ [?c2]) = Inr ([(?u, ?e2)], [(0, ?u), (1, ?u)])"
    by code_simp
  have run2': "extractSources ([], []) 0 [?c1, ?c2] = Inr ([(?u, ?e2)], [(0, ?u), (1, ?u)])"
    by code_simp
  have run3: "extractSources ([], []) 0 ([?c1, ?c2] @ [?c3]) =
                Inr ([(?u, ?e2)], [(0, ?u), (1, ?u), (2, ?u)])"
    by code_simp
  have uri1: "webUri ?c1 = Some ?u"
    by code_simp
  have uri2: "webUri ?c2 = Some ?u" "normalizeUri ?u = ?u" "truthy (webTitle ?c2)"
    by code_simp+
  have stored1: "map_of [(?u, ?e1)] ?u = Some ?e1" "title ?e1 = placeholder"
    by simp_all
  have stored2: "map_of [(?u, ?e2)] ?u = Some ?e2" "title ?e2 \<noteq> placeholder"
    by (simp_all add: placeholder_def)
  from title_upgrade_one_directional [of "[]" ?c1 "[(?u, ?e1)]" "[(0, ?u)]" ?u] run1 uri1
  have first: "map_of [(?u, ?e1)] (normalizeUri ?u) =
     Some \<lparr>title = (if truthy (webTitle ?c1) then webTitle ?c1 else placeholder),
           uri = ?u, citationCount = 0\<rparr>"
    by simp
  from title_upgrade_one_directional [of "[?c1]" ?c2 "[(?u, ?e2)]" "[(0, ?u), (1, ?u)]" _
      "[(?u, ?e1)]" "[(0, ?u)]" ?u ?e1] run1' run2 stored1 uri2
  have later: "title (the (map_of [(?u, ?e2)] ?u)) = webTitle ?c2"
    by auto
  from title_upgrade_one_directional [of "[?c1, ?c2]" _ _ _ _ "[(?u, ?e2)]" "[(0, ?u), (1, ?u)]" ?u _
      "[?c3]" "[(?u, ?e2)]" "[(0, ?u), (1, ?u), (2, ?u)]" ?e2]
    run2' run3 stored2
  have stable: "map_of [(?u, ?e2)] ?u = Some ?e2"
    by blast
  from run1 run2 run3 first later stable show ?thesis
    by blast
qed

text \<open>
  C9, as amended. A chunk that upgrades the title of a stored source replaces the whole
  entry where it stands: the keys keep their order, every other key keeps its source, and
  the upgraded source has the title and the raw uri of the upgrading chunk, whose
  normalized form is the key, and a citation count of zero.
\<close>

theorem title_upgrade_replaces_entry:
  assumes "webUri chunk = Some u"
    and "map_of sm (normalizeUri u) = Some existing"
    and "title existing = placeholder"
    and "truthy (webTitle chunk)"
  shows "\<exists>sm' im'. addChunk (sm, im) index chunk = Inr (sm', im') \<and>
           map fst sm' = map fst sm \<and>
           map_of sm' (normalizeUri u) =
             Some \<lparr>title = webTitle chunk, uri = u, citationCount = 0\<rparr> \<and>
           (\<forall>k. k \<noteq> normalizeUri u \<longrightarrow> map_of sm' k = map_of sm k)"
proof -
  let ?k = "normalizeUri u"
  let ?new = "\<lparr>title = webTitle chunk, uri = u, citationCount = 0\<rparr>"
  from assms have new: "storedSource chunk u = ?new"
    by (simp add: storedSource_def)
  from addChunk_Some [OF assms(1), of sm im index] assms(2,3,4) new
  have step: "addChunk (sm, im) index chunk =
                Inr (AList.update ?k ?new sm, AList.update index ?k im)"
    by simp
  have "map fst (AList.update ?k ?new sm) = map fst sm"
    using map_of_Some_key [OF assms(2)] by (simp only: AList.update_keys if_True)
  moreover have "map_of (AList.update ?k ?new sm) ?k = Some ?new"
    by (simp add: AList.update_conv')
  moreover have "\<forall>k. k \<noteq> ?k \<longrightarrow> map_of (AList.update ?k ?new sm) k = map_of sm k"
    by (simp add: AList.update_conv')
  ultimately show ?thesis
    using step by blast
qed


text \<open>
  C9 as stated says that the uri field stays the one of the first chunk. A first chunk
  with uri \<open>http://example.com/\<close> and no title, followed by a chunk with uri
  \<open>http://example.com\<close> and a title, leaves a source whose uri is the second one.
\<close>

theorem upgrade_keeps_first_uri_counterexample:
  \<open>processGeminiOutput sampleNumStr sampleParse ''{"nodes":[],"edges":[]}''
     [untitledChunk ''http://example.com/''] [] [] =
     Inr \<lparr>graphData = \<lparr>nodes = [], edges = []\<rparr>,
          sources = [\<lparr>title = Str ''Unknown Source'', uri = ''http://example.com/'',
                      citationCount = 0\<rparr>],
          searchQueries = [], summary = [], groundingSupports = []\<rparr> \<and>
   processGeminiOutput sampleNumStr sampleParse ''{"nodes":[],"edges":[]}''
     [untitledChunk ''http://example.com/'',
      webChunk ''http://example.com'' (Str ''Better Title'')] [] [] =
     Inr \<lparr>graphData = \<lparr>nodes = [], edges = []\<rparr>,
          sources = [\<lparr>title = Str ''Better Title'', uri = ''http://example.com'',
                      citationCount = 0\<rparr>],
          searchQueries = [], summary = [], groundingSupports = []\<rparr>\<close>
  by code_simp

theorem title_upgrade_replaces_entry_witness:
  "webUri (webChunk ''http://example.com'' (Str ''Better Title'')) = Some ''http://example.com'' \<and>
   addChunk ([(''http://example.com'',
               \<lparr>title = placeholder, uri = ''http://example.com/'', citationCount = 0\<rparr>)],
             [(0, ''http://example.com'')]) 1
            (webChunk ''http://example.com'' (Str ''Better Title'')) =
     Inr ([(''http://example.com'',
            \<lparr>title = Str ''Better Title'', uri = ''http://example.com'', citationCount = 0\<rparr>)],
          [(0, ''http://example.com''), (1, ''http://example.com'')]) \<and>
   map_of [(''http://example.com'',
            \<lparr>title = Str ''Better Title'', uri = ''http://example.com'', citationCount = 0\<rparr>)]
          (normalizeUri ''http://example.com'') =
     Some \<lparr>title = webTitle (webChunk ''http://example.com'' (Str ''Better Title'')),
           uri = ''http://example.com'', citationCount = 0\<rparr>"
proof -
  let ?u = "''http://example.com''"
  let ?c = "webChunk ?u (Str ''Better Title'')"
  let ?e = "\<lparr>title = placeholder, uri = ''http://example.com/'', citationCount = 0\<rparr>"
  have uri: "webUri ?c = Some ?u"
    by code_simp
  have stored: "map_of [(?u, ?e)] (normalizeUri ?u) = Some ?e"
    by code_simp
  have plain: "title ?e = placeholder"
    by simp
  have better: "truthy (webTitle ?c)"
    by code_simp
  have step: "addChunk ([(?u, ?e)], [(0, ?u)]) 1 ?c =
     Inr ([(?u, \<lparr>title = Str ''Better Title'', uri = ?u, citationCount = 0\<rparr>)],
          [(0, ?u), (1, ?u)])"
    by code_simp
  from title_upgrade_replaces_entry [OF uri stored plain better, of "[(0, ?u)]" 1] step uri
  show ?thesis
    by auto
qed

theorem sources_unique_and_ordered_witness:
  \<open>processGeminiOutput sampleNumStr sampleParse ''{"nodes":[],"edges":[]}''
     [Null, untitledChunk ''http://a/'', webChunk ''http://b'' (Str ''B''),
      webChunk ''http://a'' (Str ''A''), Obj [(''web'', Obj [(''title'', Str ''No URI'')])]]
     [] [] =
     Inr \<lparr>graphData = \<lparr>nodes = [], edges = []\<rparr>,
          sources = [\<lparr>title = Str ''A'', uri = ''http://a'', citationCount = 0\<rparr>,
                     \<lparr>title = Str ''B'', uri = ''http://b'', citationCount = 0\<rparr>],
          searchQueries = [], summary = [], groundingSupports = []\<rparr> \<and>
   distinct (map (\<lambda>s. normalizeUri (uri s))
     [\<lparr>title = Str ''A'', uri = ''http://a'', citationCount = 0\<rparr>,
      \<lparr>title = Str ''B'', uri = ''http://b'', citationCount = 0\<rparr>])\<close>
proof -
  let ?r = "\<lparr>graphData = \<lparr>nodes = [], edges = []\<rparr>,
          sources = [\<lparr>title = Str ''A'', uri = ''http://a'', citationCount = 0\<rparr>,
                     \<lparr>title = Str ''B'', uri = ''http://b'', citationCount = 0\<rparr>],
          searchQueries = [], summary = [], groundingSupports = []\<rparr>"
  have run: \<open>processGeminiOutput sampleNumStr sampleParse ''{"nodes":[],"edges":[]}''
     [Null, untitledChunk ''http://a/'', webChunk ''http://b'' (Str ''B''),
      webChunk ''http://a'' (Str ''A''), Obj [(''web'', Obj [(''title'', Str ''No URI'')])]]
     [] [] = Inr ?r\<close>
    by code_simp
  from sources_unique_and_ordered [OF run] run show ?thesis
    by simp
qed



section \<open>Isolation of a fenced block\<close>

lemma startsWith_Cons_Cons [simp]:
  "startsWith (c # s) (d # p) \<longleftrightarrow> c = d \<and> startsWith s p"
  by (simp add: startsWith_def)

lemma startsWith_Nil [simp]: "startsWith s []"
  by (simp add: startsWith_def)

lemma startsWith_Nil_left [simp]: "startsWith [] p \<longleftrightarrow> p = []"
  by (auto simp: startsWith_def)

lemma startsWith_append_other:
  "\<not> startsWith s p \<Longrightarrow> x \<notin> set p \<Longrightarrow> \<not> startsWith (s @ x # r) p"
proof (induction s arbitrary: p)
  case Nil
  then show ?case by (cases p) auto
next
  case (Cons c s)
  then show ?case by (cases p) auto
qed

lemma startsWith_append_cases:
  "startsWith (ws @ z) p \<Longrightarrow> startsWith ws p \<or> set ws \<subseteq> set p"
proof (induction ws arbitrary: p)
  case Nil
  then show ?case by simp
next
  case (Cons c ws)
  then show ?case by (cases p) auto
qed

lemma occurs_append: "occurs p ws \<Longrightarrow> occurs p (xs @ ws)"
  by (induction xs) simp_all

lemma startsWith_occurs: "startsWith ws p \<Longrightarrow> ws \<noteq> [] \<Longrightarrow> occurs p ws"
  by (cases ws) auto

lemma fenceMatch_skip:
  assumes "\<not> occurs p pre" and "x \<notin> set p" and "p \<noteq> []"
  shows "fenceMatch p i (pre @ x # r) = fenceMatch p (i + length pre + 1) r"
  using assms(1)
proof (induction pre arbitrary: i)
  case Nil
  from assms(2,3) have "\<not> startsWith (x # r) p"
    by (cases p) auto
  then show ?case by simp
next
  case (Cons c cs)
  then have here: "\<not> startsWith (c # cs) p" and rest: "\<not> occurs p cs"
    by simp_all
  from startsWith_append_other [OF here assms(2)]
  have "\<not> startsWith ((c # cs) @ x # r) p" .
  with Cons.IH [OF rest, of "Suc i"] show ?case
    by simp
qed

lemma fenceMatch_here:
  assumes "lazyGroup (dropWhile is_space r) = Some g" and "p \<noteq> []"
  shows "fenceMatch p i (p @ r) = Some (i, g)"
proof -
  from assms(2) obtain d p' where p: "p = d # p'"
    by (cases p) auto
  have "startsWith (p @ r) p"
    by (simp add: startsWith_def)
  with assms(1) show ?thesis
    unfolding p by simp
qed

lemma lazyGroup_closes: "closes z \<Longrightarrow> lazyGroup z = Some []"
  by (cases z) auto

lemma not_closes_inside:
  assumes "\<not> occurs fence ys" and "ys \<noteq> []" and "last ys = CHR ''}''"
  shows "\<not> closes (ys @ z)"
proof
  assume c: "closes (ys @ z)"
  let ?ws = "dropWhile is_space ys"
  have brace: "CHR ''}'' \<in> set ys" "\<not> is_space CHR ''}''"
    using assms(2,3) last_in_set [of ys] by (auto simp: is_space_def)
  then have split: "dropWhile is_space (ys @ z) = ?ws @ z"
    by (rule dropWhile_append1)
  from brace have ne: "?ws \<noteq> []"
    by auto
  have "ys = takeWhile is_space ys @ ?ws"
    by simp
  then have "last ys = last ?ws"
    using ne by (metis last_appendR)
  with assms(3) ne have inws: "CHR ''}'' \<in> set ?ws"
    by (metis last_in_set)
  have "\<not> occurs fence ?ws"
    using assms(1) occurs_append [of fence ?ws "takeWhile is_space ys"] by auto
  with ne have "\<not> startsWith ?ws fence"
    using startsWith_occurs by blast
  moreover from c split have "startsWith (?ws @ z) fence"
    by (simp add: closes_def)
  ultimately have "set ?ws \<subseteq> set fence"
    using startsWith_append_cases by blast
  with inws show False
    by (auto simp: fence_def)
qed

lemma lazyGroup_body:
  assumes "closes z"
  shows "\<not> occurs fence j \<Longrightarrow> j = [] \<or> last j = CHR ''}'' \<Longrightarrow> lazyGroup (j @ z) = Some j"
proof (induction j)
  case Nil
  with assms show ?case by (simp add: lazyGroup_closes)
next
  case (Cons c cs)
  from Cons.prems have "\<not> closes ((c # cs) @ z)"
    by (intro not_closes_inside) auto
  moreover from Cons.prems have "\<not> occurs fence cs" "cs = [] \<or> last cs = CHR ''}''"
    by (auto split: if_splits)
  ultimately show ?case
    using Cons.IH by simp
qed


lemma closes_fence: "closes (CHR 0x0A # fence @ r)"
  by (simp add: closes_def is_space_def fence_def startsWith_def)

lemma indexOf_hd: "j \<noteq> [] \<Longrightarrow> indexOf j (hd j) = Some 0"
  by (cases j) auto

lemma lastIndexOf_last: "j \<noteq> [] \<Longrightarrow> lastIndexOf j (last j) = Some (length j - 1)"
proof -
  assume "j \<noteq> []"
  then have "rev j \<noteq> []" "hd (rev j) = last j"
    by (simp_all add: hd_rev)
  with indexOf_hd [of "rev j"] show ?thesis
    by (simp add: lastIndexOf_def)
qed

lemma narrow_braces:
  assumes "j \<noteq> []" and "hd j = CHR ''{''" and "last j = CHR ''}''"
  shows "narrow j = j"
proof -
  from assms have "length j \<noteq> 1"
    by (cases j) auto
  with assms(1) have long: "0 < length j - 1" "length j - 1 + 1 - 0 = length j"
    by (cases j; simp)+
  from indexOf_hd [OF assms(1)] lastIndexOf_last [OF assms(1)] assms(2,3) long
  show ?thesis
    by (simp add: narrow_def)
qed

lemma trim_snoc_space: "is_space x \<Longrightarrow> trim (s @ [x]) = trim s"
proof (cases "\<forall>y \<in> set s. is_space y")
  case True
  moreover assume "is_space x"
  ultimately have "dropWhile is_space s = []" "dropWhile is_space (s @ [x]) = []"
    by simp_all
  then show ?thesis
    by (simp only: trim_def)
next
  case False
  then obtain y where "y \<in> set s" "\<not> is_space y"
    by blast
  then have "dropWhile is_space (s @ [x]) = dropWhile is_space s @ [x]"
    by (rule dropWhile_append1)
  moreover assume "is_space x"
  ultimately show ?thesis
    by (simp add: trim_def)
qed

lemma closes_padded:
  assumes "\<forall>c \<in> set ws. is_space c"
  shows "closes (ws @ CHR 0x0A # fence @ r)"
proof -
  from assms have "dropWhile is_space (ws @ CHR 0x0A # fence @ r) =
                   dropWhile is_space (CHR 0x0A # fence @ r)"
    by (intro dropWhile_append2) simp
  with closes_fence [of r] show ?thesis
    by (simp add: closes_def)
qed

lemma isolate_fencedText:
  assumes "\<not> occurs (fence @ ''json'') pre" and "\<not> occurs fence core"
    and "core \<noteq> []" and "hd core = CHR ''{''" and "last core = CHR ''}''"
    and "\<forall>c \<in> set ws1. is_space c" and "\<forall>c \<in> set ws2. is_space c"
  shows "isolate (fencedText pre (ws1 @ core @ ws2) post) = (trim pre, core)"
proof -
  let ?z = "ws2 @ CHR 0x0A # fence @ CHR 0x0A # post"
  let ?r = "CHR 0x0A # ws1 @ core @ ?z"
  let ?p = "fence @ ''json''"
  have shape: "fencedText pre (ws1 @ core @ ws2) post = pre @ CHR 0x0A # (?p @ ?r)"
    by (simp add: fencedText_def)
  have nl: "CHR 0x0A \<notin> set ?p" "?p \<noteq> []"
    by (simp_all add: fence_def)
  from assms(3,4) obtain b where "core = CHR ''{'' # b"
    by (cases core) auto
  then have "dropWhile is_space (core @ ?z) = core @ ?z"
    by (simp add: is_space_def)
  moreover from assms(6) have "dropWhile is_space (ws1 @ core @ ?z) = dropWhile is_space (core @ ?z)"
    by (intro dropWhile_append2) simp
  ultimately have "dropWhile is_space ?r = core @ ?z"
    by (simp add: is_space_def)
  moreover have "lazyGroup (core @ ?z) = Some core"
    using lazyGroup_body [OF closes_padded [OF assms(7)], of core] assms(2,5) by simp
  ultimately have "lazyGroup (dropWhile is_space ?r) = Some core"
    by simp
  from fenceMatch_here [OF this nl(2)]
  have "fenceMatch ?p (0 + length pre + 1) (?p @ ?r) = Some (0 + length pre + 1, core)" .
  with fenceMatch_skip [OF assms(1) nl, of 0 "?p @ ?r"]
  have "fenceMatch ?p 0 (fencedText pre (ws1 @ core @ ws2) post) = Some (length pre + 1, core)"
    by (simp only: shape add_0)
  then have "isolate (fencedText pre (ws1 @ core @ ws2) post) =
               (trim (take (length pre + 1) (fencedText pre (ws1 @ core @ ws2) post)), core)"
    by (simp add: isolate_def jsonBlockMatch_def)
  also have "take (length pre + 1) (fencedText pre (ws1 @ core @ ws2) post) = pre @ [CHR 0x0A]"
    by (simp add: shape)
  also have "trim (pre @ [CHR 0x0A]) = trim pre"
    by (rule trim_snoc_space) (simp add: is_space_def)
  finally show ?thesis .
qed

text \<open>
  C8, as amended. Let the preamble contain no opening fence of a JSON block, and let the
  JSON text be an object text, from its opening to its closing brace and with no fence in
  it, with white space around it that the parser ignores. Then, whatever else the preamble
  and the postamble contain, the pipeline parses exactly the object text: when the
  citation stages return and the sanitizer returns a graph for the parsed value, the
  pipeline returns that graph, with the trimmed preamble as summary.
\<close>

theorem fenced_json_recovered:
  assumes "\<not> occurs (fence @ ''json'') pre"
    and "j = ws1 @ core @ ws2"
    and "\<forall>c \<in> set ws1. is_space c" and "\<forall>c \<in> set ws2. is_space c"
    and "core \<noteq> []" and "hd core = CHR ''{''" and "last core = CHR ''}''"
    and "\<not> occurs fence core"
    and "JSON_parse j = Some parsed" and "JSON_parse core = JSON_parse j"
    and "validShape parsed"
    and "sanitize numStr (elements (get_prop parsed ''nodes''))
                         (elements (get_prop parsed ''edges'')) = Inr g"
    and "citations chunks supports = Inr (sm, cleanSupports)"
  shows "processGeminiOutput numStr JSON_parse (fencedText pre j post) chunks supports queries =
           Inr \<lparr>graphData = g, sources = map snd sm, searchQueries = queries,
                summary = trim pre, groundingSupports = supports\<rparr>"
proof -
  have "isolate (fencedText pre j post) = (trim pre, core)"
    unfolding assms(2) using assms(1,8,5,6,7,3,4) by (rule isolate_fencedText)
  moreover have "narrow core = core"
    using assms(5-7) by (rule narrow_braces)
  moreover have "cleanSupports = supports"
    using assms(13) by (rule citations_cleanSupports)
  ultimately show ?thesis
    using assms(9-13) by (simp add: processGeminiOutput_def)
qed

text \<open>
  C8 as stated speaks of every preamble and every valid JSON text. The earliest fenced
  JSON block wins, so a preamble that itself holds a fenced block with the empty graph
  makes the pipeline return the empty graph and not the graph of the JSON text, which has
  a node and an edge. The lazy group ends at the first fence, so a JSON text with a fence
  inside a string is cut there, and the pipeline raises the parse error.
\<close>

theorem fenced_json_recovered_counterexample:
  \<open>processGeminiOutput sampleNumStr sampleParse
     (fencedText (fence @ ''json\<newline>{"nodes":[],"edges":[]}\<newline>'' @ fence)
        ''{"nodes":[{"id":"1","label":"A"}],"edges":[{"source":"1","target":"1","relation":"self"}]}''
        []) [] [] [] =
     Inr \<lparr>graphData = \<lparr>nodes = [], edges = []\<rparr>, sources = [], searchQueries = [],
          summary = [], groundingSupports = []\<rparr> \<and>
   processGeminiOutput sampleNumStr sampleParse
     ''{"nodes":[{"id":"1","label":"A"}],"edges":[{"source":"1","target":"1","relation":"self"}]}''
     [] [] [] =
     Inr \<lparr>graphData = \<lparr>nodes = [mkNode ''1'' ''A''], edges = [mkEdge ''1'' ''1'' ''self'']\<rparr>,
          sources = [], searchQueries = [], summary = [], groundingSupports = []\<rparr> \<and>
   processGeminiOutput sampleNumStr sampleParse
     (fencedText [] ''{"nodes":[{"id":"a```b","label":"A"}],"edges":[]}'' []) [] [] [] =
     Inl FailedToParse \<and>
   processGeminiOutput sampleNumStr sampleParse
     ''{"nodes":[{"id":"a```b","label":"A"}],"edges":[]}'' [] [] [] =
     Inr \<lparr>graphData = \<lparr>nodes = [mkNode ''a```b'' ''A''], edges = []\<rparr>,
          sources = [], searchQueries = [], summary = [], groundingSupports = []\<rparr>\<close>
  by code_simp

theorem fenced_json_recovered_witness:
  \<open>processGeminiOutput sampleNumStr sampleParse
     (fencedText ''Here is the graph data you requested:''
        (''    '' @
         ''{"nodes":[{"id":"1","label":"A"}],"edges":[{"source":"1","target":"1","relation":"self"}]}'' @
         ''\<newline>    '')
        ''    Hope this helps!'') [] [] [] =
     Inr \<lparr>graphData = \<lparr>nodes = [mkNode ''1'' ''A''], edges = [mkEdge ''1'' ''1'' ''self'']\<rparr>,
          sources = [], searchQueries = [],
          summary = ''Here is the graph data you requested:'', groundingSupports = []\<rparr>\<close>
proof -
  let ?pre = "''Here is the graph data you requested:''"
  let ?core = \<open>''{"nodes":[{"id":"1","label":"A"}],"edges":[{"source":"1","target":"1","relation":"self"}]}''\<close>
  let ?ws1 = "''    ''"
  let ?ws2 = "''\<newline>    ''"
  let ?j = "?ws1 @ ?core @ ?ws2"
  let ?parsed = "mkGraph [mkNode ''1'' ''A''] [mkEdge ''1'' ''1'' ''self'']"
  let ?g = "\<lparr>nodes = [mkNode ''1'' ''A''], edges = [mkEdge ''1'' ''1'' ''self'']\<rparr>"
  have pre: "\<not> occurs (fence @ ''json'') ?pre"
    by code_simp
  have pad: "\<forall>c \<in> set ?ws1. is_space c" "\<forall>c \<in> set ?ws2. is_space c"
    by code_simp+
  have shape: "?core \<noteq> []" "hd ?core = CHR ''{''" "last ?core = CHR ''}''"
    by simp_all
  have body: "\<not> occurs fence ?core"
    by code_simp
  have parse: "sampleParse ?j = Some ?parsed"
    by code_simp
  have same: "sampleParse ?core = sampleParse ?j"
    by code_simp
  have valid: "validShape ?parsed"
    by code_simp
  have san: "sanitize sampleNumStr (elements (get_prop ?parsed ''nodes''))
                                   (elements (get_prop ?parsed ''edges'')) = Inr ?g"
    by code_simp
  have cit: "citations [] [] = Inr ([], [])"
    by code_simp
  have summary: "trim ?pre = ?pre"
    by code_simp
  from fenced_json_recovered [OF pre refl pad shape body parse same valid san cit,
      of "''    Hope this helps!''" "[]"] summary
  show ?thesis
    by simp
qed

end
